theory Spec2Isabelle
  imports Main "HOL-Library.Multiset"
begin

section \<open>Errors\<close>

text \<open>
  The exceptions the modelled code can raise. \<open>External\<close> stands for a failure of an
  external collaborator (fetch/open, cleanup, a transformation), which the code lets
  propagate unmodified.
\<close>

datatype error =
    IndexError
  | AssertionError
  | AttributeError
  | TypeError
  | External string

section \<open>Cumulative length table and index resolution\<close>

text \<open>
  \<open>np.cumsum(self.lengths)\<close>. The list of sample counts becomes an array of 64-bit signed
  integers (the element type numpy chooses for Python integers that fit into 64 bits), and
  the running sum is accumulated in that type: a sum outside \<open>[-2^63, 2^63)\<close> wraps around
  without an error. \<open>wrap64\<close> is the value a 64-bit signed integer holds for a mathematical
  result.
\<close>

definition wrap64 :: "int \<Rightarrow> int" where
  "wrap64 k = (k + 9223372036854775808) mod 18446744073709551616 - 9223372036854775808"

fun cumsum_from :: "int \<Rightarrow> int list \<Rightarrow> int list" where
  "cumsum_from acc [] = []"
| "cumsum_from acc (x # xs) = wrap64 (acc + x) # cumsum_from (wrap64 (acc + x)) xs"

definition cumsum :: "int list \<Rightarrow> int list" where
  "cumsum xs = cumsum_from 0 xs"

text \<open>
  \<open>np.searchsorted(arr, key, side="right")\<close> for a scalar key: the library's bisection loop
  \<^verbatim>\<open>
  min_idx = 0; max_idx = arr_len
  while min_idx < max_idx:
      mid_idx = min_idx + ((max_idx - min_idx) >> 1)
      if arr[mid_idx] <= key: min_idx = mid_idx + 1
      else:                   max_idx = mid_idx
  return min_idx
  \<close>
\<close>

function binsearch_right :: "int list \<Rightarrow> int \<Rightarrow> nat \<Rightarrow> nat \<Rightarrow> nat" where
  "binsearch_right arr key min_idx max_idx =
     (if min_idx < max_idx then
        (let mid_idx = min_idx + (max_idx - min_idx) div 2 in
         if arr ! mid_idx \<le> key then binsearch_right arr key (mid_idx + 1) max_idx
         else binsearch_right arr key min_idx mid_idx)
      else min_idx)"
  by pat_completeness auto
termination
  by (relation "measure (\<lambda>(arr, key, min_idx, max_idx). max_idx - min_idx)") auto

declare binsearch_right.simps [simp del]

definition searchsorted_right :: "int list \<Rightarrow> int \<Rightarrow> nat" where
  "searchsorted_right arr key = binsearch_right arr key 0 (length arr)"

text \<open>
  The index arithmetic of \<open>ShardListDataset.get_shard\<close> (the lines before the shard is
  looked up in the cache): the shard position and the index within the shard.
\<close>

definition locate :: "int list \<Rightarrow> int \<Rightarrow> nat \<times> int" where
  "locate cum_lengths index =
     (let shard_idx = searchsorted_right cum_lengths index in
      if shard_idx = 0 then (shard_idx, index)
      else (shard_idx, index - cum_lengths ! (shard_idx - 1)))"

section \<open>Splitting member names and grouping them into samples\<close>

text \<open>
  \<open>splitname\<close> applies \<open>re.match(r"^((?:.*/)?.*?)(\..*)$", fname)\<close>. The matcher below
  follows the backtracking search of the regular expression engine: \<open>first_match\<close> tries
  the alternatives of one choice point in priority order and keeps the first that lets
  the rest of the pattern succeed. A position in the name is represented by the text that
  is still to be read.

  \<^item> \<open>.\<close> matches any character except a line feed;
  \<^item> \<open>.*?\<close> (lazy) tries the shortest repetition first, \<open>.*\<close> (greedy) the longest first;
  \<^item> \<open>$\<close> matches at the end of the text, or just before a line feed that ends the text.
\<close>

fun first_match :: "('a \<Rightarrow> 'b option) \<Rightarrow> 'a list \<Rightarrow> 'b option" where
  "first_match f [] = None"
| "first_match f (x # xs) = (case f x of Some y \<Rightarrow> Some y | None \<Rightarrow> first_match f xs)"

fun dot_star_lazy :: "string \<Rightarrow> string list" where
  "dot_star_lazy [] = [[]]"
| "dot_star_lazy (c # cs) = (c # cs) # (if c = CHR 0x0A then [] else dot_star_lazy cs)"

definition dot_star_greedy :: "string \<Rightarrow> string list" where
  "dot_star_greedy s = rev (dot_star_lazy s)"

definition at_end :: "string \<Rightarrow> bool" where
  "at_end r = (r = [] \<or> r = [CHR 0x0A])"

text \<open>After \<open>(?:.*/)?\<close>: first the positions behind a \<open>/\<close>, the rightmost first, then the start.\<close>

definition after_dir :: "string \<Rightarrow> string list" where
  "after_dir fname =
     map tl (filter (\<lambda>r. r \<noteq> [] \<and> hd r = CHR ''/'') (dot_star_greedy fname)) @ [fname]"

text \<open>\<open>(\..*)$\<close> read at position \<open>r2\<close>: the text of the second group.\<close>

definition match_ext :: "string \<Rightarrow> string option" where
  "match_ext r2 =
     (if r2 \<noteq> [] \<and> hd r2 = CHR ''.'' then
        first_match (\<lambda>r3. if at_end r3 then Some (take (length r2 - length r3) r2) else None)
          (dot_star_greedy (tl r2))
      else None)"

definition regex_groups :: "string \<Rightarrow> (string \<times> string) option" where
  "regex_groups fname =
     first_match (\<lambda>r1.
       first_match (\<lambda>r2.
         map_option (\<lambda>ext. (take (length fname - length r2) fname, ext)) (match_ext r2))
         (dot_star_lazy r1))
       (after_dir fname)"

text \<open>
  \<open>splitname\<close>: the assertion fails on a name without \<open>.\<close>; a name the pattern does not
  match makes \<open>re.match\<close> return \<open>None\<close>, whose \<open>.groups()\<close> raises \<open>AttributeError\<close>.
\<close>

definition splitname :: "string \<Rightarrow> error + string \<times> string" where
  "splitname fname =
     (if CHR ''.'' \<notin> set fname then Inl AssertionError
      else case regex_groups fname of
             None \<Rightarrow> Inl AttributeError
           | Some (basename, extension) \<Rightarrow> Inr (basename, extension))"

text \<open>
  \<open>group_by_key\<close>: the loop over \<open>enumerate(names)\<close>, with the loop variables \<open>groups\<close>,
  \<open>last_key\<close> and \<open>current\<close> as arguments. The names whose warning is printed are collected
  in \<open>warned\<close>; the function returns the groups together with that log.
\<close>

fun group_loop ::
  "(nat \<times> string) list \<Rightarrow> nat list list \<Rightarrow> string option \<Rightarrow> nat list \<Rightarrow> string list
   \<Rightarrow> error + nat list list \<times> string list" where
  "group_loop [] groups last_key current warned =
     Inr (if current \<noteq> [] then groups @ [current] else groups, warned)"
| "group_loop ((i, fname) # rest) groups last_key current warned =
     (if CHR ''.'' \<notin> set fname then group_loop rest groups last_key current (warned @ [fname])
      else case splitname fname of
             Inl e \<Rightarrow> Inl e
           | Inr (key, ext) \<Rightarrow>
               if Some key \<noteq> last_key then
                 group_loop rest (if current \<noteq> [] then groups @ [current] else groups)
                   (Some key) [i] warned
               else group_loop rest groups last_key (current @ [i]) warned)"

definition group_by_key :: "string list \<Rightarrow> error + nat list list \<times> string list" where
  "group_by_key names = group_loop (enumerate 0 names) [] None [] []"

text \<open>
  The wording of the specification, for comparison: the list is cut into its maximal runs
  of neighbours with the same key.
\<close>

function runs_by :: "('a \<Rightarrow> 'k) \<Rightarrow> 'a list \<Rightarrow> 'a list list" where
  "runs_by f [] = []"
| "runs_by f (x # xs) =
     (x # takeWhile (\<lambda>y. f y = f x) xs) # runs_by f (dropWhile (\<lambda>y. f y = f x) xs)"
  by pat_completeness auto
termination
  by (relation "measure (\<lambda>(f, xs). length xs)") (auto simp: length_dropWhile_le le_imp_less_Suc)

definition key_of :: "string \<Rightarrow> string option" where
  "key_of fname = (case splitname fname of Inl e \<Rightarrow> None | Inr (key, ext) \<Rightarrow> Some key)"

definition kept :: "string list \<Rightarrow> (nat \<times> string) list" where
  "kept names = filter (\<lambda>(i, fname). CHR ''.'' \<in> set fname) (enumerate 0 names)"

section \<open>The sample grouper\<close>

text \<open>
  The archive index is external: it yields the member names in order and the member
  \<open>(name, data)\<close> at a position. It is modelled by the list of its members; \<open>md5\<close> is the
  digest \<open>compute_file_md5sum\<close> computes for the archive.
\<close>

record tar_reader =
  members :: "(string \<times> string) list"
  md5 :: string

definition names :: "tar_reader \<Rightarrow> string list" where
  "names rd = map fst (members rd)"

definition get_file :: "tar_reader \<Rightarrow> nat \<Rightarrow> error + string \<times> string" where
  "get_file rd i = (if i < length (members rd) then Inr (members rd ! i) else Inl IndexError)"

text \<open>Python's \<open>xs[i]\<close> on a list: a negative index counts from the end.\<close>

definition py_getitem :: "'a list \<Rightarrow> int \<Rightarrow> error + 'a" where
  "py_getitem xs idx =
     (if 0 \<le> idx \<and> idx < int (length xs) then Inr (xs ! nat idx)
      else if idx < 0 \<and> - int (length xs) \<le> idx then Inr (xs ! nat (int (length xs) + idx))
      else Inl IndexError)"

datatype field = Stream string | Text string | Number int | NoneValue

type_synonym sample = "string \<rightharpoonup> field"

record IndexedTarSamples =
  source :: "string option"
  path :: string
  reader :: tar_reader
  samples :: "nat list list"

definition IndexedTarSamples_init ::
  "tar_reader \<Rightarrow> string \<Rightarrow> string option \<Rightarrow> int option \<Rightarrow> string option
   \<Rightarrow> error + IndexedTarSamples" where
  "IndexedTarSamples_init rd pth md5sum expected_size src =
     (case group_by_key (names rd) of
        Inl e \<Rightarrow> Inl e
      | Inr (groups, warned) \<Rightarrow>
          if md5sum \<noteq> None \<and> md5sum \<noteq> Some (md5 rd) then Inl AssertionError
          else if expected_size \<noteq> None \<and> expected_size \<noteq> Some (int (length groups))
          then Inl AssertionError
          else Inr \<lparr>source = src, path = pth, reader = rd, samples = groups\<rparr>)"

definition IndexedTarSamples_len :: "IndexedTarSamples \<Rightarrow> int" where
  "IndexedTarSamples_len its = int (length (samples its))"

text \<open>
  The loop of \<open>__getitem__\<close> over the member positions of one group, with \<open>sample\<close> and
  \<open>key\<close> as arguments. \<open>key or k\<close> keeps \<open>key\<close> unless it is \<open>None\<close> or the empty string.
\<close>

fun getitem_loop ::
  "tar_reader \<Rightarrow> nat list \<Rightarrow> sample \<Rightarrow> string option \<Rightarrow> error + sample \<times> string option" where
  "getitem_loop rd [] sample key = Inr (sample, key)"
| "getitem_loop rd (i # indexes) sample key =
     (case get_file rd i of
        Inl e \<Rightarrow> Inl e
      | Inr (fname, data) \<Rightarrow>
          (case splitname fname of
             Inl e \<Rightarrow> Inl e
           | Inr (k, ext) \<Rightarrow>
               (let key' = (if key = None \<or> key = Some [] then k else the key) in
                if key' \<noteq> k then Inl AssertionError
                else getitem_loop rd indexes (sample(ext \<mapsto> Stream data)) (Some key'))))"

definition IndexedTarSamples_getitem :: "IndexedTarSamples \<Rightarrow> int \<Rightarrow> error + sample" where
  "IndexedTarSamples_getitem its idx =
     (case py_getitem (samples its) idx of
        Inl e \<Rightarrow> Inl e
      | Inr indexes \<Rightarrow>
          (case getitem_loop (reader its) indexes Map.empty None of
             Inl e \<Rightarrow> Inl e
           | Inr (sample, key) \<Rightarrow>
               Inr (sample(''__key__'' \<mapsto> (case key of None \<Rightarrow> NoneValue | Some k \<Rightarrow> Text k)))))"

text \<open>
  A property of a grouper that the facts below rely on: every member position of every
  group is a position of the archive.
\<close>

definition positions_valid :: "IndexedTarSamples \<Rightarrow> bool" where
  "positions_valid its =
     (\<forall>g\<in>set (samples its). \<forall>j\<in>set g. j < length (members (reader its)))"

section \<open>Localizer: the escaped global directory\<close>

text \<open>
  \<open>urllib.parse.quote(shard, safe="+-")\<close>: the identifier is encoded as UTF-8 and every
  byte outside the always-safe characters and \<open>safe\<close> is written as \<open>%XX\<close> with upper-case
  hexadecimal digits. A shard identifier is modelled by the bytes of its UTF-8 encoding.
\<close>

definition always_safe :: string where
  "always_safe = ''ABCDEFGHIJKLMNOPQRSTUVWXYZabcdefghijklmnopqrstuvwxyz0123456789_.-~''"

definition hexdigit :: "nat \<Rightarrow> char" where
  "hexdigit n = ''0123456789ABCDEF'' ! n"

definition quote_byte :: "string \<Rightarrow> char \<Rightarrow> string" where
  "quote_byte safe c =
     (if c \<in> set always_safe \<or> c \<in> set safe then [c]
      else [CHR ''%'', hexdigit (of_char c div 16), hexdigit (of_char c mod 16)])"

definition quote :: "string \<Rightarrow> string \<Rightarrow> string" where
  "quote safe s = concat (map (quote_byte safe) s)"

text \<open>\<open>os.path.join(a, b)\<close> on a POSIX system, for one added component.\<close>

definition os_path_join :: "string \<Rightarrow> string \<Rightarrow> string" where
  "os_path_join a b =
     (if b \<noteq> [] \<and> hd b = CHR ''/'' then b
      else if a = [] \<or> last a = CHR ''/'' then a @ b
      else a @ CHR ''/'' # b)"

definition default_localname :: "string \<Rightarrow> string \<Rightarrow> string" where
  "default_localname dldir shard =
     (let cachename = quote ''+-'' shard in os_path_join dldir cachename)"

text \<open>
  \<open>os.path.basename\<close> and the flat-basename localizer \<open>cache_localname\<close>; the path component
  of the parsed URL comes from \<open>urlparse\<close>, a parameter here.
\<close>

definition os_path_basename :: "string \<Rightarrow> string" where
  "os_path_basename p = rev (takeWhile (\<lambda>c. c \<noteq> CHR ''/'') (rev p))"

definition cache_localname :: "(string \<Rightarrow> string) \<Rightarrow> string \<Rightarrow> string \<Rightarrow> string" where
  "cache_localname urlparse_path cachedir shard =
     os_path_join cachedir (os_path_basename (urlparse_path shard))"

section \<open>The shard cache\<close>

text \<open>
  Modelled from the spec: the class \<open>LRUCache\<close> of the module \<open>wids_lru\<close>, which is not among
  the sources. The specification describes a pool of bounded capacity, ordered by recency,
  that evicts the least recently used entry when an insertion finds it at capacity and
  marks an entry most recently used when it is read. The entries are kept least recently
  used first. The release callback closes the evicted grouper; closing has no effect on
  the values modelled here.
\<close>

record LRUCache =
  capacity :: nat
  entries :: "(string \<times> IndexedTarSamples) list"

definition lru_contains :: "LRUCache \<Rightarrow> string \<Rightarrow> bool" where
  "lru_contains c key = (key \<in> set (map fst (entries c)))"

definition lru_setitem :: "LRUCache \<Rightarrow> string \<Rightarrow> IndexedTarSamples \<Rightarrow> LRUCache" where
  "lru_setitem c key v =
     (let others = filter (\<lambda>(k, w). k \<noteq> key) (entries c);
          room = (if capacity c \<le> length others then tl others else others)
      in c\<lparr>entries := room @ [(key, v)]\<rparr>)"

definition lru_getitem :: "LRUCache \<Rightarrow> string \<Rightarrow> IndexedTarSamples option \<times> LRUCache" where
  "lru_getitem c key =
     (case map_of (entries c) key of
        None \<Rightarrow> (None, c)
      | Some v \<Rightarrow>
          (Some v, c\<lparr>entries := filter (\<lambda>(k, w). k \<noteq> key) (entries c) @ [(key, v)]\<rparr>))"

definition lru_clear :: "LRUCache \<Rightarrow> LRUCache" where
  "lru_clear c = c\<lparr>entries := []\<rparr>"

text \<open>
  The collaborators outside the sources, as parameters: \<open>download_and_open url local\<close>
  followed by the opening of the archive index gives the archive's members or fails;
  \<open>run_cleanup n\<close> is the outcome of the cleanup collaborator's call number \<open>n\<close>;
  \<open>default_decoder\<close> is the built-in decoder for a format.
\<close>

record env =
  download_and_open :: "string \<Rightarrow> string \<Rightarrow> error + tar_reader"
  run_cleanup :: "nat \<Rightarrow> error option"
  default_decoder :: "string \<Rightarrow> sample \<Rightarrow> error + sample"
  urlparse_path :: "string \<Rightarrow> string"

text \<open>
  \<open>LRUShards\<close>. The attribute \<open>last_missed\<close> does not exist before the first call of
  \<open>get_shard\<close> that completes: \<open>None\<close> stands for the missing attribute.
\<close>

record LRUShards =
  localname :: "string \<Rightarrow> string"
  lru :: LRUCache
  accesses :: int
  misses :: int
  last_missed :: "bool option"

definition reset_stats :: "LRUShards \<Rightarrow> LRUShards" where
  "reset_stats c = c\<lparr>accesses := 0, misses := 0\<rparr>"

definition LRUShards_init :: "nat \<Rightarrow> (string \<Rightarrow> string) \<Rightarrow> LRUShards" where
  "LRUShards_init num_shards lname =
     reset_stats \<lparr>localname = lname, lru = \<lparr>capacity = num_shards, entries = []\<rparr>,
                  accesses = 0, misses = 0, last_missed = None\<rparr>"

definition LRUShards_clear :: "LRUShards \<Rightarrow> LRUShards" where
  "LRUShards_clear c = c\<lparr>lru := lru_clear (lru c)\<rparr>"

text \<open>
  \<open>LRUShards.get_shard\<close>. A failure of the fetch or of the construction of the grouper
  leaves the method after the access counter has been incremented and before the pool,
  the miss counter and the flag are touched.
\<close>

definition lookup_shard :: "LRUShards \<Rightarrow> string \<Rightarrow> (error + IndexedTarSamples) \<times> LRUShards" where
  "lookup_shard c url =
     (case lru_getitem (lru c) url of
        (None, l) \<Rightarrow> (Inl TypeError, c\<lparr>lru := l\<rparr>)
      | (Some itf, l) \<Rightarrow> (Inr itf, c\<lparr>lru := l\<rparr>))"

definition LRUShards_get_shard ::
  "env \<Rightarrow> LRUShards \<Rightarrow> string \<Rightarrow> (error + IndexedTarSamples) \<times> LRUShards" where
  "LRUShards_get_shard e c url =
     (let c1 = c\<lparr>accesses := accesses c + 1\<rparr> in
      if \<not> lru_contains (lru c1) url then
        (let local = localname c1 url in
         case download_and_open e url local of
           Inl err \<Rightarrow> (Inl err, c1)
         | Inr stream \<Rightarrow>
             (case IndexedTarSamples_init stream local None None (Some url) of
                Inl err \<Rightarrow> (Inl err, c1)
              | Inr itf \<Rightarrow>
                  lookup_shard
                    (c1\<lparr>lru := lru_setitem (lru c1) url itf,
                        misses := misses c1 + 1,
                        last_missed := Some True\<rparr>) url))
      else lookup_shard (c1\<lparr>last_missed := Some False\<rparr>) url)"


section \<open>The sharded dataset\<close>

record shard_desc =
  url :: string
  nsamples :: int
  dataset :: "string option"
  filesize :: "int option"

datatype transformation = PIL | Numpy | Callable "sample \<Rightarrow> error + sample"

definition interpret_transformations ::
  "env \<Rightarrow> transformation list \<Rightarrow> (sample \<Rightarrow> error + sample) list" where
  "interpret_transformations e ts =
     map (\<lambda>t. case t of PIL \<Rightarrow> default_decoder e ''PIL''
                     | Numpy \<Rightarrow> default_decoder e ''numpy''
                     | Callable f \<Rightarrow> f) ts"

text \<open>
  The state of a \<open>ShardListDataset\<close>. \<open>cleanup\<close> tells whether a cleanup collaborator was
  created and \<open>cleanup_runs\<close> counts its calls; \<open>check_enabled\<close> is false once
  \<open>check_cache_misses\<close> has replaced itself by the function that does nothing; \<open>warned\<close>
  lists the advisory warnings printed, each with the \<open>(accesses, misses)\<close> it reported.
  The dataset name, a hash of the shard list, plays no part in access and is left out.
\<close>

record ShardListDataset =
  shards :: "shard_desc list"
  lengths :: "int list"
  cum_lengths :: "int list"
  total_length :: int
  cache_dir :: "string option"
  transformations :: "(sample \<Rightarrow> error + sample) list"
  cache :: LRUShards
  cleanup :: bool
  cleanup_runs :: nat
  check_enabled :: bool
  warned :: "(int \<times> int) list"

text \<open>
  \<open>__init__\<close> for a shard list given directly. \<open>self.cum_lengths[-1]\<close> raises \<open>IndexError\<close>
  on an empty table. \<open>wids_cache\<close> is the directory the environment names, or the default.
\<close>

definition ShardListDataset_init ::
  "env \<Rightarrow> shard_desc list \<Rightarrow> nat \<Rightarrow> string option \<Rightarrow> int option \<Rightarrow> (string \<Rightarrow> string) option
   \<Rightarrow> string \<Rightarrow> transformation list \<Rightarrow> error + ShardListDataset" where
  "ShardListDataset_init e shardlist cache_size cachedir cache_cleanup lname wids_cache ts =
     (let lens = map nsamples shardlist;
          cum = cumsum lens
      in case py_getitem cum (- 1) of
           Inl err \<Rightarrow> Inl err
         | Inr total_len \<Rightarrow>
             (let (cdir, lname') =
                    (case cachedir of
                       Some d \<Rightarrow> (Some d, cache_localname (urlparse_path e) d)
                     | None \<Rightarrow>
                         (case lname of
                            Some f \<Rightarrow> (None, f)
                          | None \<Rightarrow> (Some wids_cache, default_localname wids_cache)))
              in Inr \<lparr>shards = shardlist, lengths = lens, cum_lengths = cum,
                      total_length = total_len, cache_dir = cdir,
                      transformations = interpret_transformations e ts,
                      cache = LRUShards_init cache_size lname',
                      cleanup = (cache_cleanup \<noteq> None \<and> cdir \<noteq> None),
                      cleanup_runs = 0, check_enabled = True, warned = []\<rparr>))"

definition get_stats :: "ShardListDataset \<Rightarrow> int \<times> int" where
  "get_stats ds = (accesses (cache ds), misses (cache ds))"

text \<open>
  \<open>check_cache_misses\<close>. The source compares the floating-point quotient
  \<open>misses / accesses\<close> with the literal \<open>0.3\<close>; the quotient of two integers is correctly
  rounded and \<open>0.3\<close> denotes the double nearest to three tenths, so for fewer than \<open>2^50\<close>
  accesses the comparison holds exactly when \<open>3 * accesses < 10 * misses\<close>.
\<close>

definition check_cache_misses :: "ShardListDataset \<Rightarrow> ShardListDataset" where
  "check_cache_misses ds =
     (if \<not> check_enabled ds then ds
      else (let (acc, mis) = get_stats ds in
            if acc > 100 \<and> 3 * acc < 10 * mis
            then ds\<lparr>check_enabled := False, warned := warned ds @ [(acc, mis)]\<rparr>
            else ds))"

text \<open>\<open>ShardListDataset.get_shard\<close>: the shard's grouper, the inner index, the descriptor.\<close>

definition get_shard ::
  "env \<Rightarrow> ShardListDataset \<Rightarrow> int
   \<Rightarrow> (error + IndexedTarSamples \<times> int \<times> shard_desc) \<times> ShardListDataset" where
  "get_shard e ds index =
     (let (shard_idx, inner_idx) = locate (cum_lengths ds) index in
      if \<not> shard_idx < length (shards ds) then (Inl IndexError, ds)
      else
        (let desc = shards ds ! shard_idx;
             (r, c) = LRUShards_get_shard e (cache ds) (url desc);
             ds1 = ds\<lparr>cache := c\<rparr>
         in case r of
              Inl err \<Rightarrow> (Inl err, ds1)
            | Inr shard \<Rightarrow>
                if last_missed c = Some True \<and> cleanup ds1 then
                  (case run_cleanup e (cleanup_runs ds1) of
                     Some err \<Rightarrow> (Inl err, ds1\<lparr>cleanup_runs := cleanup_runs ds1 + 1\<rparr>)
                   | None \<Rightarrow>
                       (Inr (shard, inner_idx, desc),
                        ds1\<lparr>cleanup_runs := cleanup_runs ds1 + 1\<rparr>))
                else (Inr (shard, inner_idx, desc), ds1)))"

text \<open>
  The first two statements of \<open>__getitem__\<close>: the shard is resolved and the local sample is
  read from its grouper.
\<close>

definition read_sample ::
  "env \<Rightarrow> ShardListDataset \<Rightarrow> int
   \<Rightarrow> (error + sample \<times> int \<times> shard_desc) \<times> ShardListDataset" where
  "read_sample e ds index =
     (case get_shard e ds index of
        (Inl err, ds1) \<Rightarrow> (Inl err, ds1)
      | (Inr (shard, inner_idx, desc), ds1) \<Rightarrow>
          (case IndexedTarSamples_getitem shard inner_idx of
             Inl err \<Rightarrow> (Inl err, ds1)
           | Inr smp \<Rightarrow> (Inr (smp, inner_idx, desc), ds1)))"

fun apply_transformations ::
  "(sample \<Rightarrow> error + sample) list \<Rightarrow> sample \<Rightarrow> error + sample" where
  "apply_transformations [] smp = Inr smp"
| "apply_transformations (t # ts) smp =
     (case t smp of Inl err \<Rightarrow> Inl err | Inr smp' \<Rightarrow> apply_transformations ts smp')"

definition decorate :: "sample \<Rightarrow> shard_desc \<Rightarrow> int \<Rightarrow> int \<Rightarrow> sample" where
  "decorate smp desc index inner_idx =
     smp(''__dataset__'' \<mapsto> (case dataset desc of None \<Rightarrow> NoneValue | Some d \<Rightarrow> Text d),
         ''__index__'' \<mapsto> Number index,
         ''__shard__'' \<mapsto> Text (url desc),
         ''__shardindex__'' \<mapsto> Number inner_idx)"

definition ShardListDataset_getitem ::
  "env \<Rightarrow> ShardListDataset \<Rightarrow> int \<Rightarrow> (error + sample) \<times> ShardListDataset" where
  "ShardListDataset_getitem e ds index =
     (case read_sample e ds index of
        (Inl err, ds1) \<Rightarrow> (Inl err, ds1)
      | (Inr (smp, inner_idx, desc), ds1) \<Rightarrow>
          (let ds2 = check_cache_misses ds1 in
           (apply_transformations (transformations ds2) (decorate smp desc index inner_idx),
            ds2)))"

definition ShardListDataset_close :: "ShardListDataset \<Rightarrow> ShardListDataset" where
  "ShardListDataset_close ds = ds\<lparr>cache := LRUShards_clear (cache ds)\<rparr>"

text \<open>A sequence of accesses; each access leaves its state to the next, whatever it returned.\<close>

fun access_all :: "env \<Rightarrow> ShardListDataset \<Rightarrow> int list \<Rightarrow> ShardListDataset" where
  "access_all e ds [] = ds"
| "access_all e ds (i # is) = access_all e (snd (ShardListDataset_getitem e ds i)) is"

section \<open>The locality-aware sampler\<close>

text \<open>
  The generator of \<open>random.Random\<close> is outside the sources: \<open>mk\<close> builds a generator state
  from a seed and \<open>randbelow g n\<close> draws a number below \<open>n\<close> and gives the next state.
  \<open>random.shuffle\<close> is the library's loop
  \<^verbatim>\<open>
  for i in reversed(range(1, len(x))):
      j = randbelow(i + 1)
      x[i], x[j] = x[j], x[i]
  \<close>
\<close>

fun shuffle_loop ::
  "('g \<Rightarrow> nat \<Rightarrow> nat \<times> 'g) \<Rightarrow> nat list \<Rightarrow> 'a list \<Rightarrow> 'g \<Rightarrow> 'a list \<times> 'g" where
  "shuffle_loop randbelow [] x g = (x, g)"
| "shuffle_loop randbelow (i # is) x g =
     (let (j, g') = randbelow g (i + 1) in
      shuffle_loop randbelow is (x[i := x ! j, j := x ! i]) g')"

definition shuffle :: "('g \<Rightarrow> nat \<Rightarrow> nat \<times> 'g) \<Rightarrow> 'a list \<Rightarrow> 'g \<Rightarrow> 'a list \<times> 'g" where
  "shuffle randbelow x g = shuffle_loop randbelow (rev [1..<length x]) x g"

record 'g ShardListSampler =
  ranges :: "(int \<times> int) list"
  seed :: int
  shufflefirst :: bool
  epoch :: int
  rng :: "'g option"

fun ranges_from :: "int \<Rightarrow> int list \<Rightarrow> (int \<times> int) list" where
  "ranges_from start [] = []"
| "ranges_from start (l # ls) = (start, start + l) # ranges_from (start + l) ls"

definition ShardListSampler_init ::
  "ShardListDataset \<Rightarrow> int list option \<Rightarrow> int \<Rightarrow> bool \<Rightarrow> 'g ShardListSampler" where
  "ShardListSampler_init ds lens sd sf =
     \<lparr>ranges = ranges_from 0 (case lens of None \<Rightarrow> lengths ds | Some ls \<Rightarrow> ls),
      seed = sd, shufflefirst = sf, epoch = 0, rng = None\<rparr>"

text \<open>
  \<open>__iter__\<close> is a generator function: a call creates a traversal whose body runs only while
  the consumer asks for the next index, and which is suspended at each \<open>yield\<close>. The frame of
  a traversal is \<open>NotStarted\<close> before the first request, \<open>Running perm pending\<close> when it is
  suspended inside \<open>yield from indexes\<close> with the indices \<open>pending\<close> still to be yielded and the
  shards \<open>perm\<close> still to be visited, and \<open>Finished\<close> once the body has returned. The sampler
  object is shared by all its traversals: every shuffle reads the attribute \<open>self.rng\<close> at the
  moment it runs, the start of a traversal replaces it, and the end of a traversal increments
  \<open>self.epoch\<close>.
\<close>

datatype traversal = NotStarted | Running "nat list" "int list" | Finished

text \<open>The outcome of one request: an index, the end of the traversal, or an exception.\<close>

datatype step = Yield int | StopIteration | Raise error

text \<open>
  The loop \<open>for shard in shardperm\<close>, entered or resumed with the shards \<open>perm\<close> left: it runs
  until an index is yielded; a shard without indices yields nothing and the loop goes on.
  Reading \<open>self.rng\<close> raises \<open>AttributeError\<close> where the attribute does not exist.
\<close>

fun next_shard ::
  "('g \<Rightarrow> nat \<Rightarrow> nat \<times> 'g) \<Rightarrow> 'g ShardListSampler \<Rightarrow> nat list
   \<Rightarrow> step \<times> 'g ShardListSampler \<times> traversal" where
  "next_shard randbelow s [] = (StopIteration, s\<lparr>epoch := epoch s + 1\<rparr>, Finished)"
| "next_shard randbelow s (shard # rest) =
     (case rng s of
        None \<Rightarrow> (Raise AttributeError, s, Finished)
      | Some g \<Rightarrow>
          (let (start, end) = ranges s ! shard;
               (indexes, g') = shuffle randbelow [start..end - 1] g;
               s' = s\<lparr>rng := Some g'\<rparr>
           in case indexes of
                [] \<Rightarrow> next_shard randbelow s' rest
              | i # later \<Rightarrow> (Yield i, s', Running rest later)))"

text \<open>One request for the next index of a traversal, on the sampler as it is at that moment.\<close>

fun sampler_next ::
  "(int \<Rightarrow> 'g) \<Rightarrow> ('g \<Rightarrow> nat \<Rightarrow> nat \<times> 'g) \<Rightarrow> 'g ShardListSampler \<Rightarrow> traversal
   \<Rightarrow> step \<times> 'g ShardListSampler \<times> traversal" where
  "sampler_next mk randbelow s NotStarted =
     (let g0 = mk (seed s + 1289738273 * epoch s);
          shardperm = [0..<length (ranges s)];
          (shardperm', g1) =
             (if epoch s > 0 \<or> shufflefirst s then shuffle randbelow shardperm g0
              else (shardperm, g0))
      in next_shard randbelow (s\<lparr>rng := Some g1\<rparr>) shardperm')"
| "sampler_next mk randbelow s (Running perm []) = next_shard randbelow s perm"
| "sampler_next mk randbelow s (Running perm (i # later)) = (Yield i, s, Running perm later)"
| "sampler_next mk randbelow s Finished = (StopIteration, s, Finished)"

text \<open>
  The work a traversal has left, which every yielded index decreases: the pending indices and,
  for each shard still to be visited, one step more than its number of indices.
\<close>

fun work_left :: "(int \<times> int) list \<Rightarrow> traversal \<Rightarrow> nat" where
  "work_left rs NotStarted = 0"
| "work_left rs (Running perm pending) =
     length pending +
     sum_list (map (\<lambda>k. Suc (length [fst (rs ! k)..snd (rs ! k) - 1])) perm)"
| "work_left rs Finished = 0"

text \<open>
  A consumer that requests the indices of one traversal until it ends, with no other use of
  the sampler in between, as \<open>list(sampler)\<close> or a \<open>for\<close> loop over the sampler does: the
  indices received and the sampler left behind.
\<close>

function drain ::
  "(int \<Rightarrow> 'g) \<Rightarrow> ('g \<Rightarrow> nat \<Rightarrow> nat \<times> 'g) \<Rightarrow> 'g ShardListSampler \<Rightarrow> traversal
   \<Rightarrow> int list \<times> 'g ShardListSampler" where
  "drain mk randbelow s fr =
     (case sampler_next mk randbelow s fr of
        (r, s', fr') \<Rightarrow>
          (case r of
             Yield i \<Rightarrow> (case drain mk randbelow s' fr' of (out, s'') \<Rightarrow> (i # out, s''))
           | StopIteration \<Rightarrow> ([], s')
           | Raise e \<Rightarrow> ([], s')))"
  by pat_completeness auto

termination
proof (relation "measures [\<lambda>(mk, randbelow, s, fr). if fr = NotStarted then 1 else 0,
                           \<lambda>(mk, randbelow, s, fr). work_left (ranges s) fr]")
  show "wf (measures [\<lambda>(mk :: int \<Rightarrow> 'g, randbelow :: 'g \<Rightarrow> nat \<Rightarrow> nat \<times> 'g,
                        s :: 'g ShardListSampler, fr). if fr = NotStarted then 1 else 0,
                      \<lambda>(mk, randbelow, s, fr). work_left (ranges s) fr])"
    by simp
next
  fix mk :: "int \<Rightarrow> 'g" and randbelow :: "'g \<Rightarrow> nat \<Rightarrow> nat \<times> 'g"
    and s s' :: "'g ShardListSampler" and fr fr' r y i
  assume r: "(r, y) = sampler_next mk randbelow s fr" and y: "(s', fr') = y"
    and i: "r = Yield i"
  have len_loop: "length (fst (shuffle_loop randbelow js xs g)) = length xs"
    for js and xs :: "int list" and g
    by (induction js arbitrary: xs g) (simp_all split: prod.splits)
  have len: "length (fst (shuffle randbelow xs g)) = length xs" for xs :: "int list" and g
    by (simp add: shuffle_def len_loop)
  have ns: "next_shard randbelow t perm = (Yield i, s', fr') \<Longrightarrow>
              fr' \<noteq> NotStarted \<and>
              work_left (ranges s') fr' < work_left (ranges t) (Running perm [])"
    for t perm
  proof (induction perm arbitrary: t)
    case Nil
    then show ?case by simp
  next
    case (Cons shard rest)
    from Cons.prems obtain g where g: "rng t = Some g"
      by (cases "rng t") simp_all
    obtain start "end" where se: "ranges t ! shard = (start, end)"
      by (cases "ranges t ! shard")
    obtain indexes g' where sh: "shuffle randbelow [start..end - 1] g = (indexes, g')"
      by (cases "shuffle randbelow [start..end - 1] g")
    have l: "length indexes = length [start..end - 1]"
      using len [of "[start..end - 1]" g] sh by simp
    show ?case
    proof (cases indexes)
      case Nil
      with Cons.prems g se sh
      have "next_shard randbelow (t\<lparr>rng := Some g'\<rparr>) rest = (Yield i, s', fr')"
        by simp
      from Cons.IH [OF this] show ?thesis by simp
    next
      case (Cons j later)
      with Cons.prems g se sh
      have "s' = t\<lparr>rng := Some g'\<rparr>" "fr' = Running rest later"
        by simp_all
      with l Cons se show ?thesis by simp
    qed
  qed
  from r y i have n: "sampler_next mk randbelow s fr = (Yield i, s', fr')"
    by simp
  have "fr' \<noteq> NotStarted \<and>
        (fr \<noteq> NotStarted \<longrightarrow> work_left (ranges s') fr' < work_left (ranges s) fr)"
  proof (cases fr)
    case NotStarted
    with n ns [of "s\<lparr>rng := Some (snd (if epoch s > 0 \<or> shufflefirst s
            then shuffle randbelow [0..<length (ranges s)] (mk (seed s + 1289738273 * epoch s))
            else ([0..<length (ranges s)], mk (seed s + 1289738273 * epoch s))))\<rparr>"
          "fst (if epoch s > 0 \<or> shufflefirst s
            then shuffle randbelow [0..<length (ranges s)] (mk (seed s + 1289738273 * epoch s))
            else ([0..<length (ranges s)], mk (seed s + 1289738273 * epoch s)))"]
    show ?thesis by (simp add: Let_def split: prod.splits if_splits)
  next
    case (Running perm pending)
    show ?thesis
    proof (cases pending)
      case Nil
      with n Running ns [of s perm] show ?thesis by simp
    next
      case (Cons j later)
      with n Running show ?thesis by auto
    qed
  next
    case Finished
    with n show ?thesis by simp
  qed
  then show "((mk, randbelow, s', fr'), (mk, randbelow, s, fr))
          \<in> measures [\<lambda>(mk, randbelow, s, fr). if fr = NotStarted then 1 else 0,
                       \<lambda>(mk, randbelow, s, fr). work_left (ranges s) fr]"
    by auto
qed

declare drain.simps [simp del]

text \<open>A traversal from its creation to its end.\<close>

definition ShardListSampler_iter ::
  "(int \<Rightarrow> 'g) \<Rightarrow> ('g \<Rightarrow> nat \<Rightarrow> nat \<times> 'g) \<Rightarrow> 'g ShardListSampler
   \<Rightarrow> int list \<times> 'g ShardListSampler" where
  "ShardListSampler_iter mk randbelow s = drain mk randbelow s NotStarted"

text \<open>
  The indices the loop over the shards yields from the generator state \<open>g\<close> when it runs to
  its end without another use of the generator in between, and the state it leaves.
\<close>

fun yield_shards ::
  "('g \<Rightarrow> nat \<Rightarrow> nat \<times> 'g) \<Rightarrow> (int \<times> int) list \<Rightarrow> nat list \<Rightarrow> 'g \<Rightarrow> int list \<times> 'g" where
  "yield_shards randbelow rs [] g = ([], g)"
| "yield_shards randbelow rs (shard # rest) g =
     (let (start, end) = rs ! shard;
          (indexes, g') = shuffle randbelow [start..end - 1] g;
          (out, g'') = yield_shards randbelow rs rest g'
      in (indexes @ out, g''))"

text \<open>The index range of shard \<open>s\<close>, as the sampler's loop builds it from \<open>ranges\<close>.\<close>

definition shard_range :: "(int \<times> int) list \<Rightarrow> nat \<Rightarrow> int list" where
  "shard_range rs s = [fst (rs ! s)..snd (rs ! s) - 1]"

section \<open>A small world for concrete runs\<close>

text \<open>
  Two archives \<open>A\<close> and \<open>B\<close> with one single-member sample each; every other identifier
  cannot be fetched. Cleanup succeeds and the decoders leave a sample as it is.
\<close>

definition example_env :: env where
  "example_env =
     \<lparr>download_and_open = (\<lambda>u local.
          if u = ''A'' then Inr \<lparr>members = [(''a.jpg'', ''x'')], md5 = []\<rparr>
          else if u = ''B'' then Inr \<lparr>members = [(''b.jpg'', ''y'')], md5 = []\<rparr>
          else Inl (External ''fetch'')),
      run_cleanup = (\<lambda>n. None),
      default_decoder = (\<lambda>fmt smp. Inr smp),
      urlparse_path = (\<lambda>u. u)\<rparr>"

definition mk_shard :: "string \<Rightarrow> int \<Rightarrow> shard_desc" where
  "mk_shard u n = \<lparr>url = u, nsamples = n, dataset = None, filesize = None\<rparr>"

text \<open>
  The dataset \<open>__init__\<close> builds from the shard list \<open>A\<close>, \<open>B\<close> with one sample each, a
  cache of capacity one, an explicit localizer and no transformations.
\<close>

definition example_dataset :: ShardListDataset where
  "example_dataset =
     \<lparr>shards = [mk_shard ''A'' 1, mk_shard ''B'' 1], lengths = [1, 1], cum_lengths = [1, 2],
      total_length = 2, cache_dir = None, transformations = [],
      cache = LRUShards_init 1 id, cleanup = False, cleanup_runs = 0,
      check_enabled = True, warned = []\<rparr>"

text \<open>The field of a returned sample; nothing when the access failed.\<close>

definition sample_field :: "error + sample \<Rightarrow> string \<Rightarrow> field option" where
  "sample_field r k = (case r of Inl err \<Rightarrow> None | Inr smp \<Rightarrow> smp k)"

text \<open>
  The example dataset after accesses that all missed and left the archive \<open>u\<close>, with
  its one member, alone in the pool.
\<close>

definition example_after :: "string \<Rightarrow> string \<Rightarrow> string \<Rightarrow> int \<Rightarrow> int \<Rightarrow> ShardListDataset" where
  "example_after u name dat acc mis =
     example_dataset
       \<lparr>cache :=
          \<lparr>localname = id,
           lru = \<lparr>capacity = 1,
                  entries = [(u, \<lparr>source = Some u, path = u,
                                 reader = \<lparr>members = [(name, dat)], md5 = []\<rparr>,
                                 samples = [[0]]\<rparr>)]\<rparr>,
           accesses = acc, misses = mis, last_missed = Some True\<rparr>\<rparr>"

text \<open>A generator for concrete runs of the sampler: a counter stepped linearly.\<close>

definition example_mk :: "int \<Rightarrow> nat" where
  "example_mk sd = nat \<bar>sd\<bar>"

definition example_randbelow :: "nat \<Rightarrow> nat \<Rightarrow> nat \<times> nat" where
  "example_randbelow g n = ((g * 7 + 3) mod n, g * 31 + 11)"

text \<open>A sampler over two shards of two samples each, before its first traversal.\<close>

definition example_sampler :: "nat ShardListSampler" where
  "example_sampler =
     \<lparr>ranges = ranges_from 0 [2, 2], seed = 5, shufflefirst = False, epoch = 0, rng = None\<rparr>"

text \<open>
  A world in which every shard can be fetched: the archive of \<open>u\<close> holds one member, whose
  content is \<open>u\<close>; \<open>example_grouper u\<close> is the grouper built from it.
\<close>

definition open_env :: env where
  "open_env =
     \<lparr>download_and_open = (\<lambda>u local. Inr \<lparr>members = [(''a.jpg'', u)], md5 = []\<rparr>),
      run_cleanup = (\<lambda>n. None),
      default_decoder = (\<lambda>fmt smp. Inr smp),
      urlparse_path = (\<lambda>u. u)\<rparr>"

definition example_grouper :: "string \<Rightarrow> IndexedTarSamples" where
  "example_grouper u =
     \<lparr>source = Some u, path = u, reader = \<lparr>members = [(''a.jpg'', u)], md5 = []\<rparr>,
      samples = [[0]]\<rparr>"

text \<open>
  The dataset \<open>__init__\<close> builds from three shards with the sample counts 5, 0 and 3, and the
  one it builds from three shards whose counts add up to \<open>2^64 + 1\<close>.
\<close>

definition three_shards :: "shard_desc list" where
  "three_shards = [mk_shard ''A'' 5, mk_shard ''B'' 0, mk_shard ''C'' 3]"

definition three_dataset :: ShardListDataset where
  "three_dataset =
     \<lparr>shards = three_shards, lengths = [5, 0, 3], cum_lengths = [5, 5, 8],
      total_length = 8, cache_dir = None, transformations = [],
      cache = LRUShards_init 1 id, cleanup = False, cleanup_runs = 0,
      check_enabled = True, warned = []\<rparr>"

definition huge_shards :: "shard_desc list" where
  "huge_shards =
     [mk_shard ''A'' 9223372036854775807, mk_shard ''B'' 9223372036854775807, mk_shard ''C'' 3]"

definition huge_dataset :: ShardListDataset where
  "huge_dataset =
     \<lparr>shards = huge_shards, lengths = [9223372036854775807, 9223372036854775807, 3],
      cum_lengths = [9223372036854775807, - 2, 1],
      total_length = 1, cache_dir = None, transformations = [],
      cache = LRUShards_init 1 id, cleanup = False, cleanup_runs = 0,
      check_enabled = True, warned = []\<rparr>"

section \<open>Facts about the cumulative table\<close>

lemma length_cumsum_from [simp]: "length (cumsum_from acc xs) = length xs"
  by (induction xs arbitrary: acc) auto

lemma length_cumsum [simp]: "length (cumsum xs) = length xs"
  by (simp add: cumsum_def)

lemma wrap64_fits:
  "- 9223372036854775808 \<le> k \<Longrightarrow> k < 9223372036854775808 \<Longrightarrow> wrap64 k = k"
  by (simp add: wrap64_def)

text \<open>
  Where the counts are non-negative and their sum is below \<open>2^63\<close>, no running sum wraps and
  the table holds the prefix sums.
\<close>

lemma cumsum_from_nth:
  assumes "\<forall>l\<in>set xs. 0 \<le> l" and "0 \<le> acc" and "acc + sum_list xs < 9223372036854775808"
    and "k < length xs"
  shows "cumsum_from acc xs ! k = acc + sum_list (take (Suc k) xs)"
  using assms
proof (induction xs arbitrary: acc k)
  case Nil
  then show ?case by simp
next
  case (Cons x xs)
  have x: "0 \<le> x" and s: "0 \<le> sum_list xs"
    using Cons.prems(1) by (simp_all add: sum_list_nonneg)
  have w: "wrap64 (acc + x) = acc + x"
    using x s Cons.prems(2,3) by (intro wrap64_fits) simp_all
  show ?case
  proof (cases k)
    case 0
    then show ?thesis by (simp add: w)
  next
    case (Suc j)
    with Cons.prems have j: "j < length xs" by simp
    have "cumsum_from (acc + x) xs ! j = acc + x + sum_list (take (Suc j) xs)"
      using Cons.prems x j by (intro Cons.IH) simp_all
    with Suc show ?thesis by (simp add: w)
  qed
qed

lemma cumsum_nth:
  assumes "\<forall>l\<in>set xs. 0 \<le> l" and "sum_list xs < 9223372036854775808" and "k < length xs"
  shows "cumsum xs ! k = sum_list (take (Suc k) xs)"
  using cumsum_from_nth [OF assms(1) _ _ assms(3), of 0] assms(2) by (simp add: cumsum_def)

lemma sum_list_take_mono:
  assumes "\<forall>l\<in>set xs. (0::int) \<le> l" and "j \<le> k"
  shows "sum_list (take j xs) \<le> sum_list (take k xs)"
proof -
  from \<open>j \<le> k\<close> obtain d where k: "k = j + d"
    using le_Suc_ex by blast
  have "take k xs = take j xs @ take d (drop j xs)"
    by (simp add: k take_add)
  moreover have "0 \<le> sum_list (take d (drop j xs))"
  proof (rule sum_list_nonneg)
    fix x assume "x \<in> set (take d (drop j xs))"
    then have "x \<in> set xs"
      by (meson in_set_dropD in_set_takeD)
    with assms(1) show "0 \<le> x" by blast
  qed
  ultimately show ?thesis by simp
qed

lemma cumsum_mono:
  assumes "\<forall>l\<in>set xs. (0::int) \<le> l" and "sum_list xs < 9223372036854775808"
    and "j \<le> k" and "k < length xs"
  shows "cumsum xs ! j \<le> cumsum xs ! k"
  using assms by (simp add: cumsum_nth sum_list_take_mono)

lemma cumsum_last:
  assumes "\<forall>l\<in>set xs. (0::int) \<le> l" and "sum_list xs < 9223372036854775808" and "xs \<noteq> []"
  shows "last (cumsum xs) = sum_list xs"
proof -
  from assms(3) have ne: "cumsum xs \<noteq> []"
    by (metis length_cumsum length_0_conv)
  from assms(3) have lt: "length xs - 1 < length xs"
    by (cases xs) simp_all
  have "last (cumsum xs) = cumsum xs ! (length xs - 1)"
    using ne by (simp add: last_conv_nth)
  also have "\<dots> = sum_list (take (Suc (length xs - 1)) xs)"
    using assms(1,2) lt by (rule cumsum_nth)
  also have "\<dots> = sum_list xs"
    using lt by simp
  finally show ?thesis .
qed

text \<open>Beyond \<open>2^63\<close> the running sum wraps: the table is no longer the list of prefix sums.\<close>

lemma cumsum_wraps:
  "cumsum [9223372036854775807, 9223372036854775807, 3] = [9223372036854775807, - 2, 1]"
  by (simp add: cumsum_def wrap64_def)

section \<open>Facts about the bisection\<close>

text \<open>
  On a non-decreasing table, the loop keeps every entry below \<open>min_idx\<close> at most the key
  and every entry from \<open>max_idx\<close> on above it; it ends on the first entry above the key.
\<close>

lemma binsearch_right_bounds:
  "min_idx \<le> max_idx \<Longrightarrow>
   min_idx \<le> binsearch_right arr key min_idx max_idx \<and>
   binsearch_right arr key min_idx max_idx \<le> max_idx"
proof (induction arr key min_idx max_idx rule: binsearch_right.induct)
  case (1 arr key min_idx max_idx)
  show ?case
  proof (cases "min_idx < max_idx")
    case False
    then have "binsearch_right arr key min_idx max_idx = min_idx"
      by (simp add: binsearch_right.simps [of arr key min_idx max_idx])
    with "1.prems" show ?thesis by simp
  next
    case True
    define mid_idx where "mid_idx = min_idx + (max_idx - min_idx) div 2"
    have mid: "min_idx \<le> mid_idx" "mid_idx < max_idx"
      using True by (auto simp: mid_idx_def)
    show ?thesis
    proof (cases "arr ! mid_idx \<le> key")
      case le: True
      from "1.IH"(1) [OF True mid_idx_def le] mid
      have "mid_idx + 1 \<le> binsearch_right arr key (mid_idx + 1) max_idx \<and>
            binsearch_right arr key (mid_idx + 1) max_idx \<le> max_idx"
        by simp
      with True le mid show ?thesis
        by (simp add: binsearch_right.simps [of arr key min_idx max_idx] mid_idx_def [symmetric])
    next
      case gt: False
      from "1.IH"(2) [OF True mid_idx_def gt] mid
      have "min_idx \<le> binsearch_right arr key min_idx mid_idx \<and>
            binsearch_right arr key min_idx mid_idx \<le> mid_idx"
        by simp
      with True gt mid show ?thesis
        by (simp add: binsearch_right.simps [of arr key min_idx max_idx] mid_idx_def [symmetric])
    qed
  qed
qed

lemma binsearch_right_inv:
  assumes "\<forall>j k. j \<le> k \<and> k < length arr \<longrightarrow> arr ! j \<le> arr ! k"
    and "min_idx \<le> max_idx" and "max_idx \<le> length arr"
    and "\<forall>j<min_idx. arr ! j \<le> key"
    and "\<forall>j. max_idx \<le> j \<and> j < length arr \<longrightarrow> key < arr ! j"
  shows "(\<forall>j<binsearch_right arr key min_idx max_idx. arr ! j \<le> key) \<and>
         (\<forall>j. binsearch_right arr key min_idx max_idx \<le> j \<and> j < length arr \<longrightarrow> key < arr ! j)"
  using assms
proof (induction arr key min_idx max_idx rule: binsearch_right.induct)
  case (1 arr key min_idx max_idx)
  show ?case
  proof (cases "min_idx < max_idx")
    case False
    then have res: "binsearch_right arr key min_idx max_idx = min_idx"
      by (simp add: binsearch_right.simps [of arr key min_idx max_idx])
    from False "1.prems"(2) have "min_idx = max_idx" by simp
    with "1.prems"(4,5) res show ?thesis by simp
  next
    case True
    define mid_idx where "mid_idx = min_idx + (max_idx - min_idx) div 2"
    have mid: "min_idx \<le> mid_idx" "mid_idx < max_idx"
      using True by (auto simp: mid_idx_def)
    show ?thesis
    proof (cases "arr ! mid_idx \<le> key")
      case le: True
      have below: "\<forall>j<mid_idx + 1. arr ! j \<le> key"
      proof (intro allI impI)
        fix j assume "j < mid_idx + 1"
        then have "j \<le> mid_idx" by simp
        with mid "1.prems"(3) have "arr ! j \<le> arr ! mid_idx"
          using "1.prems"(1) by auto
        with le show "arr ! j \<le> key" by simp
      qed
      from "1.IH"(1) [OF True mid_idx_def le "1.prems"(1) _ "1.prems"(3) below "1.prems"(5)] mid
      have "(\<forall>j<binsearch_right arr key (mid_idx + 1) max_idx. arr ! j \<le> key) \<and>
            (\<forall>j. binsearch_right arr key (mid_idx + 1) max_idx \<le> j \<and> j < length arr
                 \<longrightarrow> key < arr ! j)"
        by simp
      with True le show ?thesis
        by (simp add: binsearch_right.simps [of arr key min_idx max_idx] mid_idx_def [symmetric])
    next
      case gt: False
      have above: "\<forall>j. mid_idx \<le> j \<and> j < length arr \<longrightarrow> key < arr ! j"
      proof (intro allI impI)
        fix j assume "mid_idx \<le> j \<and> j < length arr"
        then have "arr ! mid_idx \<le> arr ! j"
          using "1.prems"(1) by auto
        with gt show "key < arr ! j" by simp
      qed
      have "mid_idx \<le> length arr"
        using mid "1.prems"(3) by simp
      from "1.IH"(2) [OF True mid_idx_def gt "1.prems"(1) mid(1) this "1.prems"(4) above]
      have "(\<forall>j<binsearch_right arr key min_idx mid_idx. arr ! j \<le> key) \<and>
            (\<forall>j. binsearch_right arr key min_idx mid_idx \<le> j \<and> j < length arr
                 \<longrightarrow> key < arr ! j)" .
      with True gt show ?thesis
        by (simp add: binsearch_right.simps [of arr key min_idx max_idx] mid_idx_def [symmetric])
    qed
  qed
qed

lemma searchsorted_right_spec:
  assumes "\<forall>j k. j \<le> k \<and> k < length arr \<longrightarrow> arr ! j \<le> arr ! k"
  shows "searchsorted_right arr key \<le> length arr"
    and "\<forall>j<searchsorted_right arr key. arr ! j \<le> key"
    and "\<forall>j. searchsorted_right arr key \<le> j \<and> j < length arr \<longrightarrow> key < arr ! j"
proof -
  show "searchsorted_right arr key \<le> length arr"
    using binsearch_right_bounds [of 0 "length arr" arr key]
    by (simp add: searchsorted_right_def)
  have "(\<forall>j<binsearch_right arr key 0 (length arr). arr ! j \<le> key) \<and>
        (\<forall>j. binsearch_right arr key 0 (length arr) \<le> j \<and> j < length arr \<longrightarrow> key < arr ! j)"
    by (rule binsearch_right_inv [OF assms]) simp_all
  then show "\<forall>j<searchsorted_right arr key. arr ! j \<le> key"
    and "\<forall>j. searchsorted_right arr key \<le> j \<and> j < length arr \<longrightarrow> key < arr ! j"
    by (simp_all add: searchsorted_right_def)
qed

section \<open>Index resolution on a dataset\<close>

lemma cumsum_step:
  assumes "\<forall>l\<in>set ls. 0 \<le> l" and "sum_list ls < 9223372036854775808" and "k < length ls"
  shows "cumsum ls ! k = (if k = 0 then 0 else cumsum ls ! (k - 1)) + ls ! k"
proof (cases k)
  case 0
  with assms show ?thesis using cumsum_nth [OF assms(1,2), of 0] by (cases ls) simp_all
next
  case (Suc j)
  with assms have j: "j < length ls" by simp
  have "cumsum ls ! k = sum_list (take (Suc k) ls)"
    using assms by (rule cumsum_nth)
  also have "take (Suc k) ls = take k ls @ [ls ! k]"
    using assms(3) by (rule take_Suc_conv_app_nth)
  also have "sum_list (take k ls @ [ls ! k]) = sum_list (take (Suc j) ls) + ls ! k"
    using Suc by simp
  also have "sum_list (take (Suc j) ls) = cumsum ls ! j"
    using j assms(1,2) by (simp add: cumsum_nth)
  finally show ?thesis using Suc by simp
qed

lemma locate_cumsum:
  assumes nonneg: "\<forall>l\<in>set ls. 0 \<le> l" and fits: "sum_list ls < 9223372036854775808"
    and "ls \<noteq> []" and "0 \<le> i" and "i < last (cumsum ls)"
    and loc: "locate (cumsum ls) i = (k, loc)"
  shows "k < length ls"
    and "(if k = 0 then 0 else cumsum ls ! (k - 1)) \<le> i"
    and "i < cumsum ls ! k"
    and "\<forall>j<length ls. (if j = 0 then 0 else cumsum ls ! (j - 1)) \<le> i \<and> i < cumsum ls ! j
           \<longrightarrow> j = k"
    and "loc = i - (if k = 0 then 0 else cumsum ls ! (k - 1))"
    and "0 \<le> loc" and "loc < ls ! k"
proof -
  let ?c = "cumsum ls"
  have sorted: "\<forall>j k. j \<le> k \<and> k < length ?c \<longrightarrow> ?c ! j \<le> ?c ! k"
    using nonneg fits by (simp add: cumsum_mono)
  have k: "k = searchsorted_right ?c i"
    using loc by (auto simp: locate_def Let_def split: if_splits)
  note spec = searchsorted_right_spec [OF sorted, of i, folded k]
  have le: "k \<le> length ls" using spec(1) by simp
  have ne: "?c \<noteq> []" using \<open>ls \<noteq> []\<close> by (metis length_cumsum length_0_conv)
  show lt: "k < length ls"
  proof (rule ccontr)
    assume "\<not> k < length ls"
    with le have "k = length ls" by simp
    with spec(2) have "\<forall>j<length ls. ?c ! j \<le> i" by simp
    moreover have "length ls - 1 < length ls" using \<open>ls \<noteq> []\<close> by (cases ls) simp_all
    ultimately have "?c ! (length ls - 1) \<le> i" by blast
    moreover have "last ?c = ?c ! (length ls - 1)" using ne by (simp add: last_conv_nth)
    ultimately show False using \<open>i < last ?c\<close> by simp
  qed
  show below: "(if k = 0 then 0 else ?c ! (k - 1)) \<le> i"
    using spec(2) \<open>0 \<le> i\<close> by (cases k) auto
  show above: "i < ?c ! k"
    using spec(3) lt by simp
  show "\<forall>j<length ls. (if j = 0 then 0 else ?c ! (j - 1)) \<le> i \<and> i < ?c ! j \<longrightarrow> j = k"
  proof (intro allI impI)
    fix j assume j: "j < length ls"
      and r: "(if j = 0 then 0 else ?c ! (j - 1)) \<le> i \<and> i < ?c ! j"
    show "j = k"
    proof (rule ccontr)
      assume "j \<noteq> k"
      then consider "j < k" | "k < j" by linarith
      then show False
      proof cases
        case 1
        with spec(2) have "?c ! j \<le> i" by blast
        with r show False by simp
      next
        case 2
        then have "k \<le> j - 1" "j - 1 < length ?c" "j \<noteq> 0" using j by simp_all
        with spec(3) have "i < ?c ! (j - 1)" by blast
        with r \<open>j \<noteq> 0\<close> show False by simp
      qed
    qed
  qed
  show l: "loc = i - (if k = 0 then 0 else ?c ! (k - 1))"
    using loc k by (auto simp: locate_def Let_def split: if_splits)
  show "0 \<le> loc" using l below by simp
  show "loc < ls ! k" using l above cumsum_step [OF nonneg fits lt] by simp
qed

text \<open>What \<open>get_shard\<close> does once the index arithmetic has given a shard of the list.\<close>

lemma get_shard_located:
  assumes "locate (cum_lengths ds) i = (k, loc)" and "k < length (shards ds)"
  shows "get_shard e ds i =
           (case LRUShards_get_shard e (cache ds) (url (shards ds ! k)) of
              (Inl err, c) \<Rightarrow> (Inl err, ds\<lparr>cache := c\<rparr>)
            | (Inr shard, c) \<Rightarrow>
                if last_missed c = Some True \<and> cleanup ds then
                  (case run_cleanup e (cleanup_runs ds) of
                     Some err \<Rightarrow>
                       (Inl err, ds\<lparr>cache := c, cleanup_runs := cleanup_runs ds + 1\<rparr>)
                   | None \<Rightarrow>
                       (Inr (shard, loc, shards ds ! k),
                        ds\<lparr>cache := c, cleanup_runs := cleanup_runs ds + 1\<rparr>))
                else (Inr (shard, loc, shards ds ! k), ds\<lparr>cache := c\<rparr>))"
  using assms
  by (simp add: get_shard_def Let_def split: prod.splits sum.splits option.splits)

lemma get_shard_result:
  assumes "get_shard e ds i = (Inr (shard, inner, desc), ds')"
  shows "inner = snd (locate (cum_lengths ds) i) \<and>
         desc = shards ds ! fst (locate (cum_lengths ds) i)"
  using assms
  by (auto simp: get_shard_def Let_def split: prod.splits if_splits sum.splits option.splits)

lemma py_getitem_last:
  "py_getitem xs (- 1) = (if xs = [] then Inl IndexError else Inr (last xs))"
proof (cases "xs = []")
  case True
  then show ?thesis by (simp add: py_getitem_def)
next
  case False
  then have "nat (int (length xs) + - 1) = length xs - 1" and "Suc 0 \<le> length xs"
    by (simp_all add: Suc_le_eq)
  with False show ?thesis
    by (simp add: py_getitem_def last_conv_nth)
qed

lemma init_fields:
  assumes "ShardListDataset_init e shardlist cache_size cachedir cache_cleanup lname wids_cache ts = Inr ds"
  shows "shards ds = shardlist" "lengths ds = map nsamples shardlist"
    "cum_lengths ds = cumsum (map nsamples shardlist)"
    "shardlist \<noteq> []" "total_length ds = last (cumsum (map nsamples shardlist))"
    "check_enabled ds" "warned ds = []" "accesses (cache ds) = 0" "misses (cache ds) = 0"
proof -
  have ne: "shardlist \<noteq> []"
  proof
    assume "shardlist = []"
    then have "cumsum (map nsamples shardlist) = []" by (simp add: cumsum_def)
    with assms show False
      by (simp add: ShardListDataset_init_def Let_def py_getitem_last)
  qed
  then have c: "cumsum (map nsamples shardlist) \<noteq> []"
    by (metis length_cumsum length_map length_0_conv)
  from assms c
  have ds: "ds = (let (cdir, lname') =
                    (case cachedir of
                       Some d \<Rightarrow> (Some d, cache_localname (urlparse_path e) d)
                     | None \<Rightarrow>
                         (case lname of
                            Some f \<Rightarrow> (None, f)
                          | None \<Rightarrow> (Some wids_cache, default_localname wids_cache)))
              in \<lparr>shards = shardlist, lengths = map nsamples shardlist,
                      cum_lengths = cumsum (map nsamples shardlist),
                      total_length = last (cumsum (map nsamples shardlist)), cache_dir = cdir,
                      transformations = interpret_transformations e ts,
                      cache = LRUShards_init cache_size lname',
                      cleanup = (cache_cleanup \<noteq> None \<and> cdir \<noteq> None),
                      cleanup_runs = 0, check_enabled = True, warned = []\<rparr>)"
    by (auto simp: ShardListDataset_init_def Let_def py_getitem_last split: prod.splits)
  show "shardlist \<noteq> []" by (rule ne)
  show "shards ds = shardlist" "lengths ds = map nsamples shardlist"
    "cum_lengths ds = cumsum (map nsamples shardlist)"
    "total_length ds = last (cumsum (map nsamples shardlist))"
    "check_enabled ds" "warned ds = []" "accesses (cache ds) = 0" "misses (cache ds) = 0"
    by (simp_all add: ds Let_def LRUShards_init_def reset_stats_def split: prod.splits)
qed

lemma get_shard_static:
  "shards (snd (get_shard e ds i)) = shards ds"
  "cum_lengths (snd (get_shard e ds i)) = cum_lengths ds"
  "total_length (snd (get_shard e ds i)) = total_length ds"
  "check_enabled (snd (get_shard e ds i)) = check_enabled ds"
  "warned (snd (get_shard e ds i)) = warned ds"
  "transformations (snd (get_shard e ds i)) = transformations ds"
  by (simp_all add: get_shard_def Let_def split: prod.splits sum.splits option.splits)

lemma read_sample_snd:
  "snd (read_sample e ds i) = snd (get_shard e ds i)"
  by (simp add: read_sample_def split: prod.splits sum.splits)

lemma getitem_snd:
  "snd (ShardListDataset_getitem e ds i) =
     (case fst (read_sample e ds i) of
        Inl err \<Rightarrow> snd (read_sample e ds i)
      | Inr x \<Rightarrow> check_cache_misses (snd (read_sample e ds i)))"
  by (simp add: ShardListDataset_getitem_def Let_def split: prod.splits sum.splits)

lemma check_cache_misses_static:
  "shards (check_cache_misses ds) = shards ds"
  "cum_lengths (check_cache_misses ds) = cum_lengths ds"
  "total_length (check_cache_misses ds) = total_length ds"
  "cache (check_cache_misses ds) = cache ds"
  by (simp_all add: check_cache_misses_def Let_def split: prod.splits)

lemma getitem_static:
  "shards (snd (ShardListDataset_getitem e ds i)) = shards ds"
  "cum_lengths (snd (ShardListDataset_getitem e ds i)) = cum_lengths ds"
  "total_length (snd (ShardListDataset_getitem e ds i)) = total_length ds"
  by (simp_all add: getitem_snd read_sample_snd get_shard_static check_cache_misses_static
      split: sum.splits)

lemma access_all_static:
  "shards (access_all e ds js) = shards ds \<and>
   cum_lengths (access_all e ds js) = cum_lengths ds \<and>
   total_length (access_all e ds js) = total_length ds"
  by (induction js arbitrary: ds) (simp_all add: getitem_static)

lemma access_all_append:
  "access_all e ds (js @ ks) = access_all e (access_all e ds js) ks"
  by (induction js arbitrary: ds) simp_all


lemmas splitname_eval =
  splitname_def regex_groups_def after_dir_def dot_star_greedy_def match_ext_def at_end_def

lemma open_env_fetch:
  "fst (LRUShards_get_shard open_env (LRUShards_init n id) u) = Inr (example_grouper u)"
  "last_missed (snd (LRUShards_get_shard open_env (LRUShards_init n id) u)) = Some True"
  by (simp_all add: LRUShards_get_shard_def LRUShards_init_def reset_stats_def lru_contains_def
      Let_def open_env_def example_grouper_def IndexedTarSamples_init_def names_def
      group_by_key_def splitname_eval lookup_shard_def lru_getitem_def lru_setitem_def)

lemma three_dataset_init:
  "ShardListDataset_init open_env three_shards 1 None None (Some id) [] [] = Inr three_dataset"
  by (simp add: ShardListDataset_init_def py_getitem_last cumsum_def wrap64_def Let_def
      mk_shard_def three_shards_def three_dataset_def interpret_transformations_def)

lemma huge_dataset_init:
  "ShardListDataset_init open_env huge_shards 1 None None (Some id) [] [] = Inr huge_dataset"
  by (simp add: ShardListDataset_init_def py_getitem_last cumsum_def wrap64_def Let_def
      mk_shard_def huge_shards_def huge_dataset_def interpret_transformations_def)

lemma get_shard_open_env:
  assumes "locate (cum_lengths ds) i = (k, loc)" and "k < length (shards ds)"
    and "cache ds = LRUShards_init n id" and "\<not> cleanup ds"
  shows "fst (get_shard open_env ds i) = Inr (example_grouper (url (shards ds ! k)), loc, shards ds ! k)"
proof -
  obtain r c where rc: "LRUShards_get_shard open_env (LRUShards_init n id) (url (shards ds ! k)) = (r, c)"
    by (cases "LRUShards_get_shard open_env (LRUShards_init n id) (url (shards ds ! k))")
  with open_env_fetch(1) [of n "url (shards ds ! k)"]
  have r: "r = Inr (example_grouper (url (shards ds ! k)))" by simp
  show ?thesis
    unfolding get_shard_located [OF assms(1,2)] assms(3) rc r using assms(4) by simp
qed

lemma three_locate:
  "map (locate [5, 5, 8]) [0, 1, 2, 3, 4, 5, 6, 7] =
     [(0, 0), (0, 1), (0, 2), (0, 3), (0, 4), (2, 0), (2, 1), (2, 2)]"
  by (simp add: locate_def searchsorted_right_def binsearch_right.simps)

text \<open>
  C1 (as amended). On a dataset built from shards with non-negative sample counts whose sum
  is below \<open>2^63\<close>, in any state a sequence of accesses has left it in, a global index \<open>i\<close>
  with \<open>0 \<le> i < total\<close> is resolved by \<open>get_shard\<close> to the one shard whose half-open range of
  the cumulative table contains \<open>i\<close>: that shard's identifier is the one requested from the
  shard cache, and the grouper the cache returns is returned together with that shard's
  descriptor and the local index, which is \<open>i\<close> minus the cumulative sum of the shard before
  (\<open>i\<close> itself in the first shard) and lies in \<open>[0, sample count of the shard)\<close>. The table
  holds the prefix sums of the counts and the total is their sum. With the lengths
  \<open>[5, 0, 3]\<close> the total is 8, the indices 0 to 4 go to shard 0 with the local indices 0 to 4,
  the indices 5 to 7 to shard 2 with the local indices 0 to 2, and no index goes to the shard
  of length zero.
\<close>

theorem get_shard_resolves_index:
  "(ShardListDataset_init e shardlist cache_size cachedir cache_cleanup lname wids_cache ts
      = Inr ds \<and>
    (\<forall>d\<in>set shardlist. 0 \<le> nsamples d) \<and>
    sum_list (map nsamples shardlist) < 9223372036854775808 \<and>
    0 \<le> i \<and> i < total_length ds \<longrightarrow>
    total_length ds = sum_list (map nsamples shardlist) \<and>
    (\<exists>k<length shardlist.
       cum_lengths ds ! k = sum_list (take (Suc k) (map nsamples shardlist)) \<and>
       (if k = 0 then 0 else cum_lengths ds ! (k - 1)) \<le> i \<and> i < cum_lengths ds ! k \<and>
       (\<forall>j<length shardlist.
          (if j = 0 then 0 else cum_lengths ds ! (j - 1)) \<le> i \<and> i < cum_lengths ds ! j
          \<longrightarrow> j = k) \<and>
       0 \<le> i - (if k = 0 then 0 else cum_lengths ds ! (k - 1)) \<and>
       i - (if k = 0 then 0 else cum_lengths ds ! (k - 1)) < nsamples (shardlist ! k) \<and>
       get_shard e (access_all e ds js) i =
         (case LRUShards_get_shard e (cache (access_all e ds js)) (url (shardlist ! k)) of
            (Inl err, c) \<Rightarrow> (Inl err, (access_all e ds js)\<lparr>cache := c\<rparr>)
          | (Inr shard, c) \<Rightarrow>
              if last_missed c = Some True \<and> cleanup (access_all e ds js) then
                (case run_cleanup e (cleanup_runs (access_all e ds js)) of
                   Some err \<Rightarrow>
                     (Inl err,
                      (access_all e ds js)
                        \<lparr>cache := c, cleanup_runs := cleanup_runs (access_all e ds js) + 1\<rparr>)
                 | None \<Rightarrow>
                     (Inr (shard, i - (if k = 0 then 0 else cum_lengths ds ! (k - 1)),
                           shardlist ! k),
                      (access_all e ds js)
                        \<lparr>cache := c, cleanup_runs := cleanup_runs (access_all e ds js) + 1\<rparr>))
              else (Inr (shard, i - (if k = 0 then 0 else cum_lengths ds ! (k - 1)),
                         shardlist ! k),
                    (access_all e ds js)\<lparr>cache := c\<rparr>)))) \<and>
   ShardListDataset_init open_env three_shards 1 None None (Some id) [] [] = Inr three_dataset \<and>
   map nsamples three_shards = [5, 0, 3] \<and>
   cum_lengths three_dataset = cumsum [5, 0, 3] \<and> total_length three_dataset = 8 \<and>
   map (\<lambda>i. fst (get_shard open_env three_dataset i)) [0, 1, 2, 3, 4, 5, 6, 7] =
     [Inr (example_grouper ''A'', 0, mk_shard ''A'' 5),
      Inr (example_grouper ''A'', 1, mk_shard ''A'' 5),
      Inr (example_grouper ''A'', 2, mk_shard ''A'' 5),
      Inr (example_grouper ''A'', 3, mk_shard ''A'' 5),
      Inr (example_grouper ''A'', 4, mk_shard ''A'' 5),
      Inr (example_grouper ''C'', 0, mk_shard ''C'' 3),
      Inr (example_grouper ''C'', 1, mk_shard ''C'' 3),
      Inr (example_grouper ''C'', 2, mk_shard ''C'' 3)]"
proof (intro conjI impI)
  assume a: "ShardListDataset_init e shardlist cache_size cachedir cache_cleanup lname
               wids_cache ts = Inr ds \<and>
             (\<forall>d\<in>set shardlist. 0 \<le> nsamples d) \<and>
             sum_list (map nsamples shardlist) < 9223372036854775808 \<and>
             0 \<le> i \<and> i < total_length ds"
  let ?ls = "map nsamples shardlist"
  let ?st = "access_all e ds js"
  note f = init_fields [OF a [THEN conjunct1]]
  obtain k loc where kl: "locate (cumsum ?ls) i = (k, loc)"
    by (cases "locate (cumsum ?ls) i")
  have nonneg: "\<forall>l\<in>set ?ls. 0 \<le> l" using a by simp
  have fits: "sum_list ?ls < 9223372036854775808" using a by simp
  have ne: "?ls \<noteq> []" using f(4) by simp
  have lt: "i < last (cumsum ?ls)" using a f(5) by simp
  have i0: "0 \<le> i" using a by simp
  note r = locate_cumsum [OF nonneg fits ne i0 lt kl]
  have k: "k < length shardlist" using r(1) by simp
  have cl: "cum_lengths ds = cumsum ?ls" using f(3) .
  note st = access_all_static [of e ds js]
  show "total_length ds = sum_list (map nsamples shardlist)"
    using cumsum_last [OF nonneg fits ne] f(5) by simp
  have c1: "cum_lengths ds ! k = sum_list (take (Suc k) ?ls)"
    using k cl nonneg fits by (simp add: cumsum_nth)
  have c2: "(if k = 0 then 0 else cum_lengths ds ! (k - 1)) \<le> i"
    unfolding cl by (rule r(2))
  have c3: "i < cum_lengths ds ! k"
    unfolding cl by (rule r(3))
  have c4: "\<forall>j<length shardlist.
            (if j = 0 then 0 else cum_lengths ds ! (j - 1)) \<le> i \<and> i < cum_lengths ds ! j
            \<longrightarrow> j = k"
    using r(4) unfolding cl length_map .
  have l: "loc = i - (if k = 0 then 0 else cum_lengths ds ! (k - 1))"
    using r(5) unfolding cl .
  have c5: "0 \<le> i - (if k = 0 then 0 else cum_lengths ds ! (k - 1))"
    using r(6) unfolding l .
  have c6: "i - (if k = 0 then 0 else cum_lengths ds ! (k - 1)) < nsamples (shardlist ! k)"
    using r(7) k unfolding l by simp
  have kl': "locate (cum_lengths ?st) i = (k, i - (if k = 0 then 0 else cum_lengths ds ! (k - 1)))"
    using kl l cl st by simp
  have k': "k < length (shards ?st)"
    using k st f(1) by simp
  have sh: "shards ?st = shardlist" using st f(1) by simp
  note c7 = get_shard_located [OF kl' k', of e, unfolded sh]
  from k c1 c2 c3 c4 c5 c6 c7
  show "\<exists>k<length shardlist.
       cum_lengths ds ! k = sum_list (take (Suc k) (map nsamples shardlist)) \<and>
       (if k = 0 then 0 else cum_lengths ds ! (k - 1)) \<le> i \<and> i < cum_lengths ds ! k \<and>
       (\<forall>j<length shardlist.
          (if j = 0 then 0 else cum_lengths ds ! (j - 1)) \<le> i \<and> i < cum_lengths ds ! j
          \<longrightarrow> j = k) \<and>
       0 \<le> i - (if k = 0 then 0 else cum_lengths ds ! (k - 1)) \<and>
       i - (if k = 0 then 0 else cum_lengths ds ! (k - 1)) < nsamples (shardlist ! k) \<and>
       get_shard e (access_all e ds js) i =
         (case LRUShards_get_shard e (cache (access_all e ds js)) (url (shardlist ! k)) of
            (Inl err, c) \<Rightarrow> (Inl err, (access_all e ds js)\<lparr>cache := c\<rparr>)
          | (Inr shard, c) \<Rightarrow>
              if last_missed c = Some True \<and> cleanup (access_all e ds js) then
                (case run_cleanup e (cleanup_runs (access_all e ds js)) of
                   Some err \<Rightarrow>
                     (Inl err,
                      (access_all e ds js)
                        \<lparr>cache := c, cleanup_runs := cleanup_runs (access_all e ds js) + 1\<rparr>)
                 | None \<Rightarrow>
                     (Inr (shard, i - (if k = 0 then 0 else cum_lengths ds ! (k - 1)),
                           shardlist ! k),
                      (access_all e ds js)
                        \<lparr>cache := c, cleanup_runs := cleanup_runs (access_all e ds js) + 1\<rparr>))
              else (Inr (shard, i - (if k = 0 then 0 else cum_lengths ds ! (k - 1)),
                         shardlist ! k),
                    (access_all e ds js)\<lparr>cache := c\<rparr>))"
    by blast
next
  show "ShardListDataset_init open_env three_shards 1 None None (Some id) [] [] = Inr three_dataset"
    by (rule three_dataset_init)
next
  show "map nsamples three_shards = [5, 0, 3]"
    by (simp add: three_shards_def mk_shard_def)
next
  show "cum_lengths three_dataset = cumsum [5, 0, 3]"
    by (simp add: three_dataset_def cumsum_def wrap64_def)
next
  show "total_length three_dataset = 8"
    by (simp add: three_dataset_def)
next
  have c: "cum_lengths three_dataset = [5, 5, 8]" "cache three_dataset = LRUShards_init 1 id"
    "\<not> cleanup three_dataset" "shards three_dataset = three_shards"
    by (simp_all add: three_dataset_def)
  have g: "fst (get_shard open_env three_dataset i) =
             Inr (example_grouper (url (three_shards ! k)), loc, three_shards ! k)"
    if "locate [5, 5, 8] i = (k, loc)" and "k < 3" for i k loc
    using get_shard_open_env [of three_dataset i k loc 1] that c
    by (simp add: three_shards_def)
  have l: "locate [5, 5, 8] 0 = (0, 0)" "locate [5, 5, 8] 1 = (0, 1)" "locate [5, 5, 8] 2 = (0, 2)"
    "locate [5, 5, 8] 3 = (0, 3)" "locate [5, 5, 8] 4 = (0, 4)" "locate [5, 5, 8] 5 = (2, 0)"
    "locate [5, 5, 8] 6 = (2, 1)" "locate [5, 5, 8] 7 = (2, 2)"
    using three_locate by simp_all
  show "map (\<lambda>i. fst (get_shard open_env three_dataset i)) [0, 1, 2, 3, 4, 5, 6, 7] =
     [Inr (example_grouper ''A'', 0, mk_shard ''A'' 5),
      Inr (example_grouper ''A'', 1, mk_shard ''A'' 5),
      Inr (example_grouper ''A'', 2, mk_shard ''A'' 5),
      Inr (example_grouper ''A'', 3, mk_shard ''A'' 5),
      Inr (example_grouper ''A'', 4, mk_shard ''A'' 5),
      Inr (example_grouper ''C'', 0, mk_shard ''C'' 3),
      Inr (example_grouper ''C'', 1, mk_shard ''C'' 3),
      Inr (example_grouper ''C'', 2, mk_shard ''C'' 3)]"
    using g [OF l(1)] g [OF l(2)] g [OF l(3)] g [OF l(4)] g [OF l(5)] g [OF l(6)] g [OF l(7)]
      g [OF l(8)]
    by (simp add: three_shards_def mk_shard_def)
qed

theorem get_shard_resolves_index_witness:
  "ShardListDataset_init open_env three_shards 1 None None (Some id) [] [] = Inr three_dataset \<and>
   0 \<le> nsamples (three_shards ! 0) \<and> 0 \<le> nsamples (three_shards ! 1) \<and>
   0 \<le> nsamples (three_shards ! 2) \<and>
   sum_list (map nsamples three_shards) < 9223372036854775808 \<and>
   (0::int) \<le> 6 \<and> 6 < total_length three_dataset \<and>
   get_shard open_env three_dataset 6 =
     (Inr (example_grouper ''C'', 1, mk_shard ''C'' 3),
      three_dataset\<lparr>cache := snd (LRUShards_get_shard open_env (cache three_dataset) ''C'')\<rparr>)"
proof -
  have n: "\<forall>d\<in>set three_shards. 0 \<le> nsamples d"
    by (simp add: three_shards_def mk_shard_def)
  have s: "sum_list (map nsamples three_shards) < 9223372036854775808"
    by (simp add: three_shards_def mk_shard_def)
  have t: "(0::int) \<le> 6" "6 < total_length three_dataset"
    by (simp_all add: three_dataset_def)
  have c: "cum_lengths three_dataset = [5, 5, 8]" "cache three_dataset = LRUShards_init 1 id"
    "\<not> cleanup three_dataset"
    by (simp_all add: three_dataset_def)
  from get_shard_resolves_index [where e = open_env and shardlist = three_shards
      and cache_size = 1 and cachedir = None and cache_cleanup = None and lname = "Some id"
      and wids_cache = "[]" and ts = "[]" and ds = three_dataset and i = 6 and js = "[]"]
    three_dataset_init n s t
  obtain k where k: "k < length three_shards"
    and u: "\<forall>j<length three_shards.
          (if j = 0 then 0 else cum_lengths three_dataset ! (j - 1)) \<le> 6 \<and>
          6 < cum_lengths three_dataset ! j \<longrightarrow> j = k"
    and g: "get_shard open_env (access_all open_env three_dataset []) 6 =
         (case LRUShards_get_shard open_env (cache (access_all open_env three_dataset []))
                 (url (three_shards ! k)) of
            (Inl err, c) \<Rightarrow> (Inl err, (access_all open_env three_dataset [])\<lparr>cache := c\<rparr>)
          | (Inr shard, c) \<Rightarrow>
              if last_missed c = Some True \<and> cleanup (access_all open_env three_dataset []) then
                (case run_cleanup open_env (cleanup_runs (access_all open_env three_dataset [])) of
                   Some err \<Rightarrow>
                     (Inl err,
                      (access_all open_env three_dataset [])
                        \<lparr>cache := c,
                          cleanup_runs := cleanup_runs (access_all open_env three_dataset []) + 1\<rparr>)
                 | None \<Rightarrow>
                     (Inr (shard,
                           6 - (if k = 0 then 0 else cum_lengths three_dataset ! (k - 1)),
                           three_shards ! k),
                      (access_all open_env three_dataset [])
                        \<lparr>cache := c,
                          cleanup_runs := cleanup_runs (access_all open_env three_dataset []) + 1\<rparr>))
              else (Inr (shard, 6 - (if k = 0 then 0 else cum_lengths three_dataset ! (k - 1)),
                         three_shards ! k),
                    (access_all open_env three_dataset [])\<lparr>cache := c\<rparr>))"
    by blast
  have "2 < length three_shards" by (simp add: three_shards_def)
  with u have "(if (2::nat) = 0 then 0 else cum_lengths three_dataset ! (2 - 1)) \<le> 6 \<and>
          6 < cum_lengths three_dataset ! 2 \<longrightarrow> 2 = k"
    by blast
  then have k2: "k = 2" by (simp add: c)
  obtain r c' where rc: "LRUShards_get_shard open_env (cache three_dataset) ''C'' = (r, c')"
    by (cases "LRUShards_get_shard open_env (cache three_dataset) ''C''")
  with open_env_fetch(1) [of 1 "''C''"] have r: "r = Inr (example_grouper ''C'')"
    unfolding c(2) by simp
  have st: "access_all open_env three_dataset [] = three_dataset" by simp
  have u2: "url (three_shards ! 2) = ''C''" "three_shards ! 2 = mk_shard ''C'' 3"
    "url (mk_shard ''C'' 3) = ''C''"
    by (simp_all add: three_shards_def mk_shard_def)
  have loc: "6 - (if (2::nat) = 0 then 0 else cum_lengths three_dataset ! (2 - 1)) = 1"
    by (simp add: c(1))
  have "get_shard open_env three_dataset 6 =
     (Inr (example_grouper ''C'', 1, mk_shard ''C'' 3),
      three_dataset\<lparr>cache := snd (LRUShards_get_shard open_env (cache three_dataset) ''C'')\<rparr>)"
    using g unfolding st k2 u2 loc rc r by (simp add: c(3))
  with three_dataset_init n s t show ?thesis
    by (simp add: three_shards_def)
qed

text \<open>
  C1 as stated fails where the sum of the counts does not fit into 64 bits. The three
  shards hold \<open>2^63 - 1\<close>, \<open>2^63 - 1\<close> and 3 samples; the cumulative table wraps to
  \<open>[2^63 - 1, -2, 1]\<close> and the total is 1. The index 0, the first sample of the first shard,
  lies in the table's range of the first shard and in that of the third, and \<open>get_shard\<close>
  resolves it to the third shard with the local index 2.
\<close>

theorem get_shard_wrapped_table:
  "ShardListDataset_init open_env huge_shards 1 None None (Some id) [] [] = Inr huge_dataset \<and>
   0 \<le> nsamples (huge_shards ! 0) \<and> 0 \<le> nsamples (huge_shards ! 1) \<and>
   0 \<le> nsamples (huge_shards ! 2) \<and> length huge_shards = 3 \<and>
   total_length huge_dataset = 1 \<and>
   cum_lengths huge_dataset = cumsum (map nsamples huge_shards) \<and>
   0 < cum_lengths huge_dataset ! 0 \<and>
   cum_lengths huge_dataset ! 1 \<le> 0 \<and> 0 < cum_lengths huge_dataset ! 2 \<and>
   cum_lengths huge_dataset ! 1 \<noteq> sum_list (take 2 (map nsamples huge_shards)) \<and>
   fst (get_shard open_env huge_dataset 0) = Inr (example_grouper ''C'', 2, mk_shard ''C'' 3)"
proof -
  have l: "locate [9223372036854775807, - 2, 1] 0 = (2, 2)"
    by (simp add: locate_def searchsorted_right_def binsearch_right.simps)
  have c: "cum_lengths huge_dataset = [9223372036854775807, - 2, 1]"
    "cache huge_dataset = LRUShards_init 1 id" "\<not> cleanup huge_dataset"
    "shards huge_dataset = huge_shards"
    by (simp_all add: huge_dataset_def)
  have "fst (get_shard open_env huge_dataset 0) =
          Inr (example_grouper (url (shards huge_dataset ! 2)), 2, shards huge_dataset ! 2)"
    by (rule get_shard_open_env [where n = 1]) (simp_all add: c l huge_shards_def)
  then have g: "fst (get_shard open_env huge_dataset 0) =
                  Inr (example_grouper ''C'', 2, mk_shard ''C'' 3)"
    by (simp add: c huge_shards_def mk_shard_def)
  have m: "map nsamples huge_shards = [9223372036854775807, 9223372036854775807, 3]"
    by (simp add: huge_shards_def mk_shard_def)
  have n: "0 \<le> nsamples (huge_shards ! 0)" "0 \<le> nsamples (huge_shards ! 1)"
    "0 \<le> nsamples (huge_shards ! 2)" "length huge_shards = 3"
    by (simp_all add: huge_shards_def mk_shard_def)
  have t: "total_length huge_dataset = 1"
    by (simp add: huge_dataset_def)
  have w: "cum_lengths huge_dataset = cumsum (map nsamples huge_shards)"
    unfolding m cumsum_wraps by (rule c(1))
  have r: "0 < cum_lengths huge_dataset ! 0" "cum_lengths huge_dataset ! 1 \<le> 0"
    "0 < cum_lengths huge_dataset ! 2"
    "cum_lengths huge_dataset ! 1 \<noteq> sum_list (take 2 (map nsamples huge_shards))"
    unfolding c(1) m by (simp_all add: numeral_2_eq_2)
  from huge_dataset_init n t w r g show ?thesis
    by blast
qed

section \<open>Statistics of the shard cache\<close>
















lemma example_fetch_A:
  "(case download_and_open example_env ''A'' l of
      Inl err \<Rightarrow> Inl err
    | Inr stream \<Rightarrow> IndexedTarSamples_init stream l None None (Some ''A''))
   = Inr \<lparr>source = Some ''A'', path = l,
          reader = \<lparr>members = [(''a.jpg'', ''x'')], md5 = []\<rparr>, samples = [[0]]\<rparr>"
  by (simp add: example_env_def IndexedTarSamples_init_def names_def group_by_key_def
      splitname_eval)




section \<open>Accesses outside the index range\<close>

lemma locate_beyond:
  assumes nonneg: "\<forall>l\<in>set ls. 0 \<le> l" and fits: "sum_list ls < 9223372036854775808"
    and "ls \<noteq> []" and "last (cumsum ls) \<le> i"
  shows "fst (locate (cumsum ls) i) = length ls"
proof -
  let ?c = "cumsum ls"
  let ?k = "searchsorted_right ?c i"
  have sorted: "\<forall>j k. j \<le> k \<and> k < length ?c \<longrightarrow> ?c ! j \<le> ?c ! k"
    using nonneg fits by (simp add: cumsum_mono)
  note spec = searchsorted_right_spec [OF sorted, of i]
  have ne: "?c \<noteq> []" using \<open>ls \<noteq> []\<close> by (metis length_cumsum length_0_conv)
  have n: "length ls - 1 < length ls" using \<open>ls \<noteq> []\<close> by (cases ls) simp_all
  have "\<not> ?k < length ls"
  proof
    assume lt: "?k < length ls"
    with spec(3) n have "i < ?c ! (length ls - 1)" by simp
    moreover have "last ?c = ?c ! (length ls - 1)" using ne by (simp add: last_conv_nth)
    ultimately show False using assms(4) by simp
  qed
  with spec(1) have "?k = length ls" by simp
  then show ?thesis by (simp add: locate_def Let_def)
qed

lemma locate_negative:
  assumes nonneg: "\<forall>l\<in>set ls. 0 \<le> l" and fits: "sum_list ls < 9223372036854775808"
    and "ls \<noteq> []" and "i < 0"
  shows "locate (cumsum ls) i = (0, i)"
proof -
  let ?c = "cumsum ls"
  let ?k = "searchsorted_right ?c i"
  have sorted: "\<forall>j k. j \<le> k \<and> k < length ?c \<longrightarrow> ?c ! j \<le> ?c ! k"
    using nonneg fits by (simp add: cumsum_mono)
  note spec = searchsorted_right_spec [OF sorted, of i]
  have z: "0 < length ls" using \<open>ls \<noteq> []\<close> by simp
  have "?c ! 0 = sum_list (take (Suc 0) ls)"
    using nonneg fits z by (rule cumsum_nth)
  moreover have "0 \<le> sum_list (take (Suc 0) ls)"
    using nonneg \<open>ls \<noteq> []\<close> by (cases ls) simp_all
  ultimately have "0 \<le> ?c ! 0" by simp
  have "?k = 0"
  proof (rule ccontr)
    assume "?k \<noteq> 0"
    then have "0 < ?k" by simp
    with spec(2) have "?c ! 0 \<le> i" by blast
    with \<open>0 \<le> ?c ! 0\<close> \<open>i < 0\<close> show False by simp
  qed
  then show ?thesis by (simp add: locate_def Let_def)
qed

lemma getitem_beyond:
  assumes "cum_lengths ds = cumsum (map nsamples (shards ds))"
    and "shards ds \<noteq> []" and "\<forall>d\<in>set (shards ds). 0 \<le> nsamples d"
    and "sum_list (map nsamples (shards ds)) < 9223372036854775808"
    and "last (cum_lengths ds) \<le> i"
  shows "ShardListDataset_getitem e ds i = (Inl IndexError, ds)"
proof -
  have "fst (locate (cumsum (map nsamples (shards ds))) i) = length (map nsamples (shards ds))"
    using assms by (intro locate_beyond) simp_all
  then have "\<not> fst (locate (cum_lengths ds) i) < length (shards ds)"
    using assms(1) by simp
  then have "get_shard e ds i = (Inl IndexError, ds)"
    by (auto simp: get_shard_def Let_def split: prod.splits)
  then show ?thesis
    by (simp add: ShardListDataset_getitem_def read_sample_def)
qed

text \<open>The groups of a grouper hold positions of its archive.\<close>

lemma group_loop_positions:
  assumes "group_loop xs groups last_key current log = Inr (G, W)"
  shows "set (concat G) \<subseteq> set (concat groups) \<union> set current \<union> fst ` set xs"
  using assms
proof (induction xs arbitrary: groups last_key current log)
  case Nil
  then show ?case by (auto split: if_splits)
next
  case (Cons x xs)
  obtain i fname where x: "x = (i, fname)" by (cases x)
  show ?case
  proof (cases "CHR ''.'' \<in> set fname")
    case False
    with Cons.prems x have "group_loop xs groups last_key current (log @ [fname]) = Inr (G, W)"
      by simp
    from Cons.IH [OF this] show ?thesis by auto
  next
    case True
    with Cons.prems x obtain key ext where sp: "splitname fname = Inr (key, ext)"
      by (cases "splitname fname") auto
    show ?thesis
    proof (cases "Some key \<noteq> last_key")
      case True
      with Cons.prems x sp \<open>CHR ''.'' \<in> set fname\<close>
      have "group_loop xs (if current \<noteq> [] then groups @ [current] else groups)
              (Some key) [i] log = Inr (G, W)"
        by simp
      from Cons.IH [OF this] x show ?thesis by (auto split: if_splits)
    next
      case False
      with Cons.prems x sp \<open>CHR ''.'' \<in> set fname\<close>
      have "group_loop xs groups last_key (current @ [i]) log = Inr (G, W)"
        by simp
      from Cons.IH [OF this] x show ?thesis by auto
    qed
  qed
qed

lemma init_positions:
  assumes "IndexedTarSamples_init rd pth md5sum expected_size src = Inr its"
  shows "positions_valid its"
proof -
  from assms obtain G W where g: "group_by_key (names rd) = Inr (G, W)"
    and s: "samples its = G" and r: "reader its = rd"
    by (auto simp: IndexedTarSamples_init_def split: sum.splits prod.splits if_splits)
  from group_loop_positions [OF g [unfolded group_by_key_def]]
  have "set (concat G) \<subseteq> fst ` set (enumerate 0 (names rd))" by simp
  also have "\<dots> = set (map fst (enumerate 0 (names rd)))"
    by (simp only: set_map)
  also have "\<dots> = {0..<length (members rd)}"
    by (simp add: names_def)
  finally show ?thesis
    unfolding positions_valid_def s r by auto
qed

lemma splitname_no_IndexError: "splitname fname \<noteq> Inl IndexError"
  by (simp add: splitname_def split: option.splits prod.splits)

lemma getitem_loop_no_IndexError:
  assumes "\<forall>j\<in>set indexes. j < length (members rd)"
  shows "getitem_loop rd indexes smp key \<noteq> Inl IndexError"
  using assms
proof (induction indexes arbitrary: smp key)
  case Nil
  show ?case by simp
next
  case (Cons i indexes)
  then have i: "get_file rd i = Inr (members rd ! i)" by (simp add: get_file_def)
  obtain fname dat where m: "members rd ! i = (fname, dat)" by (cases "members rd ! i")
  show ?case
  proof (cases "splitname fname")
    case (Inl err)
    with splitname_no_IndexError [of fname] have "err \<noteq> IndexError" by auto
    with Inl i m show ?thesis by simp
  next
    case (Inr ke)
    obtain k ext where ke: "ke = (k, ext)" by (cases ke)
    have "getitem_loop rd indexes (smp(ext \<mapsto> Stream dat)) key' \<noteq> Inl IndexError" for key'
      by (rule Cons.IH) (use Cons.prems in simp)
    with Inr ke i m show ?thesis by (simp add: Let_def)
  qed
qed

text \<open>
  A grouper raises \<open>IndexError\<close> exactly outside \<open>[-n, n)\<close>, where \<open>n\<close> is its number of
  samples, and at a negative index within that range it returns what it returns at the
  index plus \<open>n\<close>.
\<close>

lemma getitem_IndexError_iff:
  assumes "positions_valid its"
  shows "IndexedTarSamples_getitem its idx = Inl IndexError \<longleftrightarrow>
           idx < - int (length (samples its)) \<or> int (length (samples its)) \<le> idx"
proof (cases "idx < - int (length (samples its)) \<or> int (length (samples its)) \<le> idx")
  case True
  then show ?thesis by (auto simp: IndexedTarSamples_getitem_def py_getitem_def)
next
  case False
  have "\<exists>g. py_getitem (samples its) idx = Inr g \<and> g \<in> set (samples its)"
  proof (cases "0 \<le> idx")
    case True
    with False have "nat idx < length (samples its)" by simp
    with True False show ?thesis by (simp add: py_getitem_def)
  next
    case neg: False
    with False have "nat (int (length (samples its)) + idx) < length (samples its)" by simp
    with neg False show ?thesis by (simp add: py_getitem_def)
  qed
  then obtain g where g: "py_getitem (samples its) idx = Inr g" and "g \<in> set (samples its)"
    by blast
  with assms have "\<forall>j\<in>set g. j < length (members (reader its))"
    by (simp add: positions_valid_def)
  from getitem_loop_no_IndexError [OF this, of Map.empty None] g False
  show ?thesis
    by (auto simp: IndexedTarSamples_getitem_def split: sum.splits prod.splits)
qed

lemma getitem_negative:
  assumes "idx < 0" and "- int (length (samples its)) \<le> idx"
  shows "IndexedTarSamples_getitem its idx =
           IndexedTarSamples_getitem its (int (length (samples its)) + idx)"
  using assms by (simp add: IndexedTarSamples_getitem_def py_getitem_def)

text \<open>Every grouper in the pool was built by the grouper's constructor.\<close>

lemma lru_getitem_entries:
  "set (entries (snd (lru_getitem l u))) \<subseteq> set (entries l)"
  "fst (lru_getitem l u) = Some v \<Longrightarrow> (u, v) \<in> set (entries l)"
  by (auto simp: lru_getitem_def split: option.splits dest: map_of_SomeD)

lemma set_tl_subset: "set (tl xs) \<subseteq> set xs"
  by (cases xs) auto

lemma lru_setitem_entries:
  "set (entries (lru_setitem l u v)) \<subseteq> insert (u, v) (set (entries l))"
  using set_tl_subset [of "filter (\<lambda>(k, w). k \<noteq> u) (entries l)"]
  by (auto simp: lru_setitem_def Let_def)

lemma lookup_shard_valid:
  assumes "\<forall>p\<in>set (entries (lru c)). positions_valid (snd p)"
  shows "(\<forall>p\<in>set (entries (lru (snd (lookup_shard c u)))). positions_valid (snd p)) \<and>
         (\<forall>itf. fst (lookup_shard c u) = Inr itf \<longrightarrow> positions_valid itf)"
proof (cases "lru_getitem (lru c) u")
  case (Pair r l)
  from lru_getitem_entries(1) [of "lru c" u] Pair
  have e: "set (entries l) \<subseteq> set (entries (lru c))"
    by simp
  show ?thesis
  proof (cases r)
    case None
    with Pair e assms show ?thesis by (auto simp: lookup_shard_def)
  next
    case (Some v)
    with lru_getitem_entries(2) [of "lru c" u v] Pair have "(u, v) \<in> set (entries (lru c))"
      by simp
    with assms have "positions_valid v" by fastforce
    with Some Pair e assms show ?thesis by (auto simp: lookup_shard_def)
  qed
qed

lemma LRUShards_get_shard_valid:
  assumes "\<forall>p\<in>set (entries (lru c)). positions_valid (snd p)"
  shows "(\<forall>p\<in>set (entries (lru (snd (LRUShards_get_shard e c u)))). positions_valid (snd p)) \<and>
         (\<forall>itf. fst (LRUShards_get_shard e c u) = Inr itf \<longrightarrow> positions_valid itf)"
proof (cases "lru_contains (lru c) u")
  case True
  then have "LRUShards_get_shard e c u =
               lookup_shard (c\<lparr>accesses := accesses c + 1, last_missed := Some False\<rparr>) u"
    by (simp add: LRUShards_get_shard_def Let_def)
  with lookup_shard_valid [of "c\<lparr>accesses := accesses c + 1, last_missed := Some False\<rparr>" u]
    assms
  show ?thesis by simp
next
  case False
  show ?thesis
  proof (cases "case download_and_open e u (localname c u) of Inl err \<Rightarrow> Inl err
          | Inr stream \<Rightarrow> IndexedTarSamples_init stream (localname c u) None None (Some u)")
    case (Inl err)
    with False have "LRUShards_get_shard e c u = (Inl err, c\<lparr>accesses := accesses c + 1\<rparr>)"
      by (auto simp: LRUShards_get_shard_def Let_def split: sum.splits)
    with assms show ?thesis by simp
  next
    case (Inr itf)
    let ?c = "c\<lparr>accesses := accesses c + 1, lru := lru_setitem (lru c) u itf,
                  misses := misses c + 1, last_missed := Some True\<rparr>"
    from Inr have "positions_valid itf"
      by (auto split: sum.splits dest: init_positions)
    with assms lru_setitem_entries [of "lru c" u itf]
    have v: "\<forall>p\<in>set (entries (lru ?c)). positions_valid (snd p)"
      by auto
    from False Inr have "LRUShards_get_shard e c u = lookup_shard ?c u"
      by (auto simp: LRUShards_get_shard_def Let_def split: sum.splits)
    with lookup_shard_valid [OF v, of u] show ?thesis by simp
  qed
qed

lemma get_shard_valid:
  assumes "\<forall>p\<in>set (entries (lru (cache ds))). positions_valid (snd p)"
  shows "(\<forall>p\<in>set (entries (lru (cache (snd (get_shard e ds i))))). positions_valid (snd p)) \<and>
         (\<forall>shard inner desc. fst (get_shard e ds i) = Inr (shard, inner, desc)
            \<longrightarrow> positions_valid shard)"
proof (cases "fst (locate (cum_lengths ds) i) < length (shards ds)")
  case False
  then have "get_shard e ds i = (Inl IndexError, ds)"
    by (auto simp: get_shard_def Let_def split: prod.splits)
  with assms show ?thesis by simp
next
  case True
  obtain k loc where kl: "locate (cum_lengths ds) i = (k, loc)"
    by (cases "locate (cum_lengths ds) i")
  with True have k: "k < length (shards ds)" by simp
  obtain r c where rc: "LRUShards_get_shard e (cache ds) (url (shards ds ! k)) = (r, c)"
    by (cases "LRUShards_get_shard e (cache ds) (url (shards ds ! k))")
  from LRUShards_get_shard_valid [OF assms, of e "url (shards ds ! k)"] rc
  have v: "\<forall>p\<in>set (entries (lru c)). positions_valid (snd p)"
    and w: "\<forall>itf. r = Inr itf \<longrightarrow> positions_valid itf"
    by simp_all
  show ?thesis
    unfolding get_shard_located [OF kl k] rc using v w
    by (auto split: sum.splits option.splits)
qed

lemma getitem_valid:
  assumes "\<forall>p\<in>set (entries (lru (cache ds))). positions_valid (snd p)"
  shows "\<forall>p\<in>set (entries (lru (cache (snd (ShardListDataset_getitem e ds i))))).
           positions_valid (snd p)"
  using get_shard_valid [OF assms, of e i]
  by (simp add: getitem_snd read_sample_snd check_cache_misses_static split: sum.splits)

lemma access_all_valid:
  assumes "\<forall>p\<in>set (entries (lru (cache ds))). positions_valid (snd p)"
  shows "\<forall>p\<in>set (entries (lru (cache (access_all e ds js)))). positions_valid (snd p)"
  using assms
proof (induction js arbitrary: ds)
  case Nil
  then show ?case by simp
next
  case (Cons j js)
  from Cons.IH [OF getitem_valid [OF Cons.prems, of e j]] show ?case by simp
qed

lemma init_cache_valid:
  assumes "ShardListDataset_init e shardlist cache_size cachedir cache_cleanup lname wids_cache ts
             = Inr ds"
  shows "\<forall>p\<in>set (entries (lru (cache ds))). positions_valid (snd p)"
proof -
  from assms have "entries (lru (cache ds)) = []"
    by (auto simp: ShardListDataset_init_def Let_def LRUShards_init_def reset_stats_def
        split: sum.splits prod.splits)
  then show ?thesis by simp
qed

lemma example_dataset_init:
  "ShardListDataset_init example_env [mk_shard ''A'' 1, mk_shard ''B'' 1] 1 None None (Some id)
     [] [] = Inr example_dataset"
  by (simp add: ShardListDataset_init_def py_getitem_last cumsum_def wrap64_def Let_def mk_shard_def
      example_dataset_def interpret_transformations_def)


text \<open>
  C4 (as amended). On a dataset built from shards with non-negative sample counts whose sum
  is below \<open>2^63\<close>, in any state a sequence of accesses has left it in, an access at a
  global index \<open>i \<ge> total\<close> fails with \<open>IndexError\<close> and leaves the state as it was, so that
  the access can be dropped from any sequence of accesses without a change to what follows.
  A negative index is not rejected by the index resolution: it is resolved to the first
  shard with the local index \<open>i\<close> itself, the first shard's identifier is requested from the
  shard cache, and the grouper the cache returns raises \<open>IndexError\<close> exactly when \<open>i\<close> is
  below minus its number of samples \<open>n\<close>; for \<open>-n \<le> i < 0\<close> it returns what it returns at the
  index \<open>n + i\<close>.
\<close>

theorem getitem_beyond_total:
  "ShardListDataset_init e shardlist cache_size cachedir cache_cleanup lname wids_cache ts
     = Inr dsi \<and>
   (\<forall>d\<in>set shardlist. 0 \<le> nsamples d) \<and>
   sum_list (map nsamples shardlist) < 9223372036854775808 \<longrightarrow>
   (total_length dsi \<le> i \<longrightarrow>
      ShardListDataset_getitem e (access_all e dsi js) i =
        (Inl IndexError, access_all e dsi js) \<and>
      access_all e dsi (js @ i # ks) = access_all e dsi (js @ ks)) \<and>
   (i < 0 \<longrightarrow>
      locate (cum_lengths dsi) i = (0, i) \<and>
      get_shard e (access_all e dsi js) i =
        (case LRUShards_get_shard e (cache (access_all e dsi js)) (url (shardlist ! 0)) of
           (Inl err, c) \<Rightarrow> (Inl err, (access_all e dsi js)\<lparr>cache := c\<rparr>)
         | (Inr shard, c) \<Rightarrow>
             if last_missed c = Some True \<and> cleanup (access_all e dsi js) then
               (case run_cleanup e (cleanup_runs (access_all e dsi js)) of
                  Some err \<Rightarrow>
                    (Inl err,
                     (access_all e dsi js)
                       \<lparr>cache := c, cleanup_runs := cleanup_runs (access_all e dsi js) + 1\<rparr>)
                | None \<Rightarrow>
                    (Inr (shard, i, shardlist ! 0),
                     (access_all e dsi js)
                       \<lparr>cache := c, cleanup_runs := cleanup_runs (access_all e dsi js) + 1\<rparr>))
             else (Inr (shard, i, shardlist ! 0), (access_all e dsi js)\<lparr>cache := c\<rparr>)) \<and>
      (\<forall>shard inner desc ds'.
         get_shard e (access_all e dsi js) i = (Inr (shard, inner, desc), ds') \<longrightarrow>
           inner = i \<and> desc = shardlist ! 0 \<and>
           (IndexedTarSamples_getitem shard inner = Inl IndexError \<longleftrightarrow>
              i < - int (length (samples shard))) \<and>
           (- int (length (samples shard)) \<le> i \<longrightarrow>
              IndexedTarSamples_getitem shard inner =
                IndexedTarSamples_getitem shard (int (length (samples shard)) + i))))"
proof (intro impI conjI)
  assume a: "ShardListDataset_init e shardlist cache_size cachedir cache_cleanup lname
               wids_cache ts = Inr dsi \<and> (\<forall>d\<in>set shardlist. 0 \<le> nsamples d) \<and>
             sum_list (map nsamples shardlist) < 9223372036854775808"
  note f = init_fields [OF a [THEN conjunct1]]
  have nonneg: "\<forall>l\<in>set (map nsamples shardlist). 0 \<le> l" using a by simp
  have fits: "sum_list (map nsamples shardlist) < 9223372036854775808" using a by simp
  have ne: "map nsamples shardlist \<noteq> []" using f(4) by simp
  let ?ds = "access_all e dsi js"
  note st = access_all_static [of e dsi js]
  have sh: "shards ?ds = shardlist" using st f(1) by simp
  {
    assume t: "total_length dsi \<le> i"
    have 1: "cum_lengths ?ds = cumsum (map nsamples (shards ?ds))"
      using st f(1,3) by simp
    have 2: "shards ?ds \<noteq> []" using st f(1,4) by simp
    have 3: "\<forall>d\<in>set (shards ?ds). 0 \<le> nsamples d" using st f(1) a by simp
    have 4: "sum_list (map nsamples (shards ?ds)) < 9223372036854775808"
      using sh fits by simp
    have 5: "last (cum_lengths ?ds) \<le> i" using st f(3,5) t by simp
    show g: "ShardListDataset_getitem e ?ds i = (Inl IndexError, ?ds)"
      by (rule getitem_beyond [OF 1 2 3 4 5])
    show "access_all e dsi (js @ i # ks) = access_all e dsi (js @ ks)"
      by (simp add: access_all_append g)
  }
  {
    assume n: "i < 0"
    show l: "locate (cum_lengths dsi) i = (0, i)"
      using locate_negative [OF nonneg fits ne n] f(3) by simp
    have l': "locate (cum_lengths ?ds) i = (0, i)"
      using l st by simp
    have z: "0 < length (shards ?ds)" using sh f(4) by simp
    show "get_shard e (access_all e dsi js) i =
        (case LRUShards_get_shard e (cache (access_all e dsi js)) (url (shardlist ! 0)) of
           (Inl err, c) \<Rightarrow> (Inl err, (access_all e dsi js)\<lparr>cache := c\<rparr>)
         | (Inr shard, c) \<Rightarrow>
             if last_missed c = Some True \<and> cleanup (access_all e dsi js) then
               (case run_cleanup e (cleanup_runs (access_all e dsi js)) of
                  Some err \<Rightarrow>
                    (Inl err,
                     (access_all e dsi js)
                       \<lparr>cache := c, cleanup_runs := cleanup_runs (access_all e dsi js) + 1\<rparr>)
                | None \<Rightarrow>
                    (Inr (shard, i, shardlist ! 0),
                     (access_all e dsi js)
                       \<lparr>cache := c, cleanup_runs := cleanup_runs (access_all e dsi js) + 1\<rparr>))
             else (Inr (shard, i, shardlist ! 0), (access_all e dsi js)\<lparr>cache := c\<rparr>))"
      using get_shard_located [OF l' z, of e] unfolding sh .
    have v: "\<forall>p\<in>set (entries (lru (cache ?ds))). positions_valid (snd p)"
      by (rule access_all_valid [OF init_cache_valid [OF a [THEN conjunct1]]])
    show "\<forall>shard inner desc ds'.
         get_shard e (access_all e dsi js) i = (Inr (shard, inner, desc), ds') \<longrightarrow>
           inner = i \<and> desc = shardlist ! 0 \<and>
           (IndexedTarSamples_getitem shard inner = Inl IndexError \<longleftrightarrow>
              i < - int (length (samples shard))) \<and>
           (- int (length (samples shard)) \<le> i \<longrightarrow>
              IndexedTarSamples_getitem shard inner =
                IndexedTarSamples_getitem shard (int (length (samples shard)) + i))"
    proof (intro allI impI)
      fix shard inner desc ds'
      assume g: "get_shard e (access_all e dsi js) i = (Inr (shard, inner, desc), ds')"
      from get_shard_result [OF g] l' sh
      have r: "inner = i" "desc = shardlist ! 0" by simp_all
      from get_shard_valid [OF v, of e i] g have "positions_valid shard" by simp
      from getitem_IndexError_iff [OF this, of i] n
      have x: "IndexedTarSamples_getitem shard i = Inl IndexError \<longleftrightarrow>
                 i < - int (length (samples shard))"
        by auto
      have y: "- int (length (samples shard)) \<le> i \<longrightarrow>
              IndexedTarSamples_getitem shard i =
                IndexedTarSamples_getitem shard (int (length (samples shard)) + i)"
        using getitem_negative [OF n, of shard] by simp
      from r x y show "inner = i \<and> desc = shardlist ! 0 \<and>
           (IndexedTarSamples_getitem shard inner = Inl IndexError \<longleftrightarrow>
              i < - int (length (samples shard))) \<and>
           (- int (length (samples shard)) \<le> i \<longrightarrow>
              IndexedTarSamples_getitem shard inner =
                IndexedTarSamples_getitem shard (int (length (samples shard)) + i))"
        by simp
    qed
  }
qed

lemma example_get_A:
  "LRUShards_get_shard example_env (LRUShards_init (Suc 0) id) ''A'' =
     (Inr \<lparr>source = Some ''A'', path = ''A'',
           reader = \<lparr>members = [(''a.jpg'', ''x'')], md5 = []\<rparr>, samples = [[0]]\<rparr>,
      \<lparr>localname = id,
       lru = \<lparr>capacity = Suc 0, entries =
         [(''A'', \<lparr>source = Some ''A'', path = ''A'',
           reader = \<lparr>members = [(''a.jpg'', ''x'')], md5 = []\<rparr>, samples = [[0]]\<rparr>)]\<rparr>,
       accesses = 1, misses = 1, last_missed = Some True\<rparr>)"
  by (simp add: LRUShards_get_shard_def LRUShards_init_def reset_stats_def lru_contains_def
      Let_def example_fetch_A [of "''A''", simplified] example_env_def
      IndexedTarSamples_init_def names_def group_by_key_def splitname_eval
      lookup_shard_def lru_getitem_def lru_setitem_def)

lemma example_get_shard_negative:
  "fst (get_shard example_env example_dataset (- 1)) =
     Inr (\<lparr>source = Some ''A'', path = ''A'',
           reader = \<lparr>members = [(''a.jpg'', ''x'')], md5 = []\<rparr>, samples = [[0]]\<rparr>,
          - 1, mk_shard ''A'' 1)"
proof -
  have l: "locate (cum_lengths example_dataset) (- 1) = (0, - 1)"
    by (simp add: example_dataset_def locate_def searchsorted_right_def binsearch_right.simps)
  have k: "0 < length (shards example_dataset)"
    by (simp add: example_dataset_def)
  show ?thesis
    unfolding get_shard_located [OF l k]
    by (simp add: example_dataset_def mk_shard_def example_get_A)
qed

theorem getitem_beyond_total_witness:
  "ShardListDataset_init example_env [mk_shard ''A'' 1, mk_shard ''B'' 1] 1 None None (Some id)
     [] [] = Inr example_dataset \<and>
   0 \<le> nsamples (mk_shard ''A'' 1) \<and> 0 \<le> nsamples (mk_shard ''B'' 1) \<and>
   sum_list (map nsamples [mk_shard ''A'' 1, mk_shard ''B'' 1]) < 9223372036854775808 \<and>
   total_length example_dataset \<le> 2 \<and>
   ShardListDataset_getitem example_env (access_all example_env example_dataset [0]) 2 =
     (Inl IndexError, access_all example_env example_dataset [0]) \<and>
   (- 1 :: int) < 0 \<and> locate (cum_lengths example_dataset) (- 1) = (0, - 1) \<and>
   fst (get_shard example_env example_dataset (- 1)) =
     Inr (\<lparr>source = Some ''A'', path = ''A'',
           reader = \<lparr>members = [(''a.jpg'', ''x'')], md5 = []\<rparr>, samples = [[0]]\<rparr>,
          - 1, mk_shard ''A'' 1) \<and>
   IndexedTarSamples_getitem
     \<lparr>source = Some ''A'', path = ''A'',
      reader = \<lparr>members = [(''a.jpg'', ''x'')], md5 = []\<rparr>, samples = [[0]]\<rparr> (- 1)
     \<noteq> Inl IndexError"
proof -
  let ?A = "\<lparr>source = Some ''A'', path = ''A'',
            reader = \<lparr>members = [(''a.jpg'', ''x'')], md5 = []\<rparr>, samples = [[0]]\<rparr>"
  have h: "\<forall>d\<in>set [mk_shard ''A'' 1, mk_shard ''B'' 1]. 0 \<le> nsamples d"
    by (simp add: mk_shard_def)
  have s: "sum_list (map nsamples [mk_shard ''A'' 1, mk_shard ''B'' 1]) < 9223372036854775808"
    by (simp add: mk_shard_def)
  have t: "total_length example_dataset \<le> 2"
    by (simp add: example_dataset_def)
  from getitem_beyond_total [where e = example_env and dsi = example_dataset and i = 2
      and js = "[0]" and ks = "[]" and shardlist = "[mk_shard ''A'' 1, mk_shard ''B'' 1]" and cache_size = 1
      and cachedir = None and cache_cleanup = None and lname = "Some id"
      and wids_cache = "[]" and ts = "[]"] example_dataset_init h s t
  have 1: "ShardListDataset_getitem example_env (access_all example_env example_dataset [0]) 2 =
     (Inl IndexError, access_all example_env example_dataset [0])"
    by blast
  obtain ds' where g: "get_shard example_env (access_all example_env example_dataset []) (- 1) =
                         (Inr (?A, - 1, mk_shard ''A'' 1), ds')"
    using example_get_shard_negative
    by (cases "get_shard example_env example_dataset (- 1)") simp
  from getitem_beyond_total [where e = example_env and dsi = example_dataset and i = "- 1"
      and js = "[]" and ks = "[]" and shardlist = "[mk_shard ''A'' 1, mk_shard ''B'' 1]" and cache_size = 1
      and cachedir = None and cache_cleanup = None and lname = "Some id"
      and wids_cache = "[]" and ts = "[]"] example_dataset_init h s
  have 2: "locate (cum_lengths example_dataset) (- 1) = (0, - 1)"
    and 3: "\<forall>shard inner desc ds'.
         get_shard example_env (access_all example_env example_dataset []) (- 1) =
           (Inr (shard, inner, desc), ds') \<longrightarrow>
           (IndexedTarSamples_getitem shard inner = Inl IndexError \<longleftrightarrow>
              - 1 < - int (length (samples shard)))"
    by simp_all
  from 3 g have "IndexedTarSamples_getitem ?A (- 1) = Inl IndexError \<longleftrightarrow>
                   - 1 < - int (length (samples ?A))"
    by blast
  then have 4: "IndexedTarSamples_getitem ?A (- 1) \<noteq> Inl IndexError"
    by simp
  from example_dataset_init h s t 1 2 4 example_get_shard_negative show ?thesis by simp
qed

lemma example_getitem_A:
  "IndexedTarSamples_getitem
     \<lparr>source = Some ''A'', path = ''A'',
      reader = \<lparr>members = [(''a.jpg'', ''x'')], md5 = []\<rparr>, samples = [[0]]\<rparr> (- 1)
   = Inr [''.jpg'' \<mapsto> Stream ''x'', ''__key__'' \<mapsto> Text ''a'']"
  by (simp add: IndexedTarSamples_getitem_def py_getitem_def get_file_def splitname_eval)

text \<open>
  C4 as stated fails at a negative index: on the dataset of the two one-sample shards the
  access at \<open>-1\<close> is outside \<open>[0, 2)\<close> and returns the sample of the first shard.
\<close>

theorem getitem_negative_index_returns:
  "total_length example_dataset = 2 \<and>
   fst (ShardListDataset_getitem example_env example_dataset (- 1)) \<noteq> Inl IndexError \<and>
   sample_field (fst (ShardListDataset_getitem example_env example_dataset (- 1))) ''__key__''
     = Some (Text ''a'') \<and>
   sample_field (fst (ShardListDataset_getitem example_env example_dataset (- 1))) ''__index__''
     = Some (Number (- 1)) \<and>
   sample_field (fst (ShardListDataset_getitem example_env example_dataset (- 1))) ''.jpg''
     = Some (Stream ''x'')"
proof -
  have l: "locate [1, 2] (- 1) = (0, - 1)"
    by (simp add: locate_def searchsorted_right_def binsearch_right.simps)
  note c = example_get_A
  have r: "read_sample example_env example_dataset (- 1) =
             (Inr ([''.jpg'' \<mapsto> Stream ''x'', ''__key__'' \<mapsto> Text ''a''], - 1, mk_shard ''A'' 1),
              example_dataset\<lparr>cache := snd (LRUShards_get_shard example_env (LRUShards_init 1 id) ''A'')\<rparr>)"
    by (simp add: read_sample_def get_shard_def example_dataset_def l mk_shard_def c
        example_getitem_A Let_def)
  show ?thesis
    unfolding ShardListDataset_getitem_def r
    by (simp add: Let_def check_cache_misses_def get_stats_def
        example_dataset_def c decorate_def sample_field_def mk_shard_def)
qed

section \<open>The cache-health warning\<close>

lemma check_cache_misses_eq:
  "check_cache_misses ds =
     (if check_enabled ds \<and> 100 < accesses (cache ds) \<and>
         3 * accesses (cache ds) < 10 * misses (cache ds)
      then ds\<lparr>check_enabled := False,
              warned := warned ds @ [(accesses (cache ds), misses (cache ds))]\<rparr>
      else ds)"
  by (simp add: check_cache_misses_def get_stats_def Let_def)

lemma read_sample_health:
  "check_enabled (snd (read_sample e ds i)) = check_enabled ds"
  "warned (snd (read_sample e ds i)) = warned ds"
  by (simp_all add: read_sample_snd get_shard_static)

lemma getitem_health:
  "warned (snd (ShardListDataset_getitem e ds i)) =
     (if check_enabled ds \<and> (\<exists>x. fst (read_sample e ds i) = Inr x) \<and>
         100 < accesses (cache (snd (read_sample e ds i))) \<and>
         3 * accesses (cache (snd (read_sample e ds i)))
           < 10 * misses (cache (snd (read_sample e ds i)))
      then warned ds @ [(accesses (cache (snd (read_sample e ds i))),
                         misses (cache (snd (read_sample e ds i))))]
      else warned ds)"
  "check_enabled (snd (ShardListDataset_getitem e ds i)) =
     (check_enabled ds \<and>
      \<not> ((\<exists>x. fst (read_sample e ds i) = Inr x) \<and>
         100 < accesses (cache (snd (read_sample e ds i))) \<and>
         3 * accesses (cache (snd (read_sample e ds i)))
           < 10 * misses (cache (snd (read_sample e ds i)))))"
  "cache (snd (ShardListDataset_getitem e ds i)) = cache (snd (read_sample e ds i))"
  by (auto simp: getitem_snd check_cache_misses_eq read_sample_health split: sum.splits)

lemma getitem_health_inv:
  assumes "length (warned ds) \<le> 1 \<and> (check_enabled ds \<longleftrightarrow> warned ds = [])"
  shows "length (warned (snd (ShardListDataset_getitem e ds i))) \<le> 1 \<and>
         (check_enabled (snd (ShardListDataset_getitem e ds i)) \<longleftrightarrow>
          warned (snd (ShardListDataset_getitem e ds i)) = [])"
  using assms by (auto simp: getitem_health)

lemma access_all_health_inv:
  "length (warned ds) \<le> 1 \<and> (check_enabled ds \<longleftrightarrow> warned ds = []) \<Longrightarrow>
   length (warned (access_all e ds js)) \<le> 1 \<and>
   (check_enabled (access_all e ds js) \<longleftrightarrow> warned (access_all e ds js) = [])"
proof (induction js arbitrary: ds)
  case Nil
  then show ?case by simp
next
  case (Cons j js)
  from Cons.IH [OF getitem_health_inv [OF Cons.prems, of e j]] show ?case by simp
qed

lemma access_all_disabled:
  "\<not> check_enabled ds \<Longrightarrow>
   warned (access_all e ds js) = warned ds \<and> \<not> check_enabled (access_all e ds js)"
proof (induction js arbitrary: ds)
  case Nil
  then show ?case by simp
next
  case (Cons j js)
  have d: "\<not> check_enabled (snd (ShardListDataset_getitem e ds j))"
    and w: "warned (snd (ShardListDataset_getitem e ds j)) = warned ds"
    using Cons.prems by (simp_all add: getitem_health)
  from Cons.IH [OF d] w show ?case by simp
qed

text \<open>
  C7 (as amended). The cache-health warning is emitted at most once over the lifetime of a
  dataset: after any sequence of accesses at most one warning has been printed, and the
  check is enabled exactly as long as none has. An access emits the warning exactly when
  the check is still enabled, the access got as far as the check (the shard was obtained
  and the local sample read), and after it the access count exceeds 100 and the misses
  exceed three tenths of the accesses; it then disables the check. Once the check is
  disabled no later access emits a warning or enables it again.
\<close>

theorem cache_health_warning_once:
  "(ShardListDataset_init e shardlist cache_size cachedir cache_cleanup lname wids_cache ts
      = Inr dsi \<longrightarrow>
      length (warned (access_all e dsi js)) \<le> 1 \<and>
      (check_enabled (access_all e dsi js) \<longleftrightarrow> warned (access_all e dsi js) = [])) \<and>
   (case read_sample e ds i of
      (r, ds') \<Rightarrow>
        cache (snd (ShardListDataset_getitem e ds i)) = cache ds' \<and>
        (if check_enabled ds \<and> (\<exists>x. r = Inr x) \<and> 100 < accesses (cache ds') \<and>
            3 * accesses (cache ds') < 10 * misses (cache ds')
         then warned (snd (ShardListDataset_getitem e ds i)) =
                warned ds @ [(accesses (cache ds'), misses (cache ds'))] \<and>
              \<not> check_enabled (snd (ShardListDataset_getitem e ds i))
         else warned (snd (ShardListDataset_getitem e ds i)) = warned ds \<and>
              check_enabled (snd (ShardListDataset_getitem e ds i)) = check_enabled ds)) \<and>
   (\<not> check_enabled ds \<longrightarrow>
      warned (access_all e ds js) = warned ds \<and> \<not> check_enabled (access_all e ds js))"
proof (intro conjI impI)
  assume a: "ShardListDataset_init e shardlist cache_size cachedir cache_cleanup lname
               wids_cache ts = Inr dsi"
  note f = init_fields [OF a]
  have "length (warned dsi) \<le> 1 \<and> (check_enabled dsi \<longleftrightarrow> warned dsi = [])"
    using f(6,7) by simp
  from access_all_health_inv [OF this, of e js]
  show "length (warned (access_all e dsi js)) \<le> 1"
    and "check_enabled (access_all e dsi js) \<longleftrightarrow> warned (access_all e dsi js) = []"
    by simp_all
next
  obtain r ds' where rd: "read_sample e ds i = (r, ds')"
    by (cases "read_sample e ds i")
  show "case read_sample e ds i of
      (r, ds') \<Rightarrow>
        cache (snd (ShardListDataset_getitem e ds i)) = cache ds' \<and>
        (if check_enabled ds \<and> (\<exists>x. r = Inr x) \<and> 100 < accesses (cache ds') \<and>
            3 * accesses (cache ds') < 10 * misses (cache ds')
         then warned (snd (ShardListDataset_getitem e ds i)) =
                warned ds @ [(accesses (cache ds'), misses (cache ds'))] \<and>
              \<not> check_enabled (snd (ShardListDataset_getitem e ds i))
         else warned (snd (ShardListDataset_getitem e ds i)) = warned ds \<and>
              check_enabled (snd (ShardListDataset_getitem e ds i)) = check_enabled ds)"
    unfolding rd prod.case
    using getitem_health [of e ds i] rd by auto
next
  assume "\<not> check_enabled ds"
  from access_all_disabled [OF this, of e js]
  show "warned (access_all e ds js) = warned ds" and "\<not> check_enabled (access_all e ds js)"
    by simp_all
qed


theorem cache_health_warning_once_witness:
  "ShardListDataset_init example_env [mk_shard ''A'' 1, mk_shard ''B'' 1] 1 None None (Some id)
     [] [] = Inr example_dataset \<and>
   length (warned (access_all example_env example_dataset [0, 1, 0])) \<le> 1 \<and>
   \<not> check_enabled (example_dataset\<lparr>check_enabled := False\<rparr>) \<and>
   warned (access_all example_env (example_dataset\<lparr>check_enabled := False\<rparr>) [0, 1]) = []"
proof -
  have d: "\<not> check_enabled (example_dataset\<lparr>check_enabled := False\<rparr>)"
    by simp
  have w: "warned (example_dataset\<lparr>check_enabled := False\<rparr>) = []"
    by (simp add: example_dataset_def)
  from cache_health_warning_once [where e = example_env and dsi = example_dataset
      and shardlist = "[mk_shard ''A'' 1, mk_shard ''B'' 1]" and cache_size = 1
      and cachedir = None and cache_cleanup = None and lname = "Some id"
      and wids_cache = "[]" and ts = "[]" and js = "[0, 1, 0]"
      and ds = "example_dataset\<lparr>check_enabled := False\<rparr>" and i = 0]
    example_dataset_init
  have 1: "length (warned (access_all example_env example_dataset [0, 1, 0])) \<le> 1"
    by blast
  from cache_health_warning_once [where e = example_env and dsi = example_dataset
      and shardlist = "[mk_shard ''A'' 1, mk_shard ''B'' 1]" and cache_size = 1
      and cachedir = None and cache_cleanup = None and lname = "Some id"
      and wids_cache = "[]" and ts = "[]" and js = "[0, 1]"
      and ds = "example_dataset\<lparr>check_enabled := False\<rparr>" and i = 0] d
  have "warned (access_all example_env (example_dataset\<lparr>check_enabled := False\<rparr>) [0, 1])
          = warned (example_dataset\<lparr>check_enabled := False\<rparr>)"
    by blast
  with w have 2: "warned (access_all example_env (example_dataset\<lparr>check_enabled := False\<rparr>)
                     [0, 1]) = []"
    by simp
  from example_dataset_init 1 d 2 show ?thesis by blast
qed

lemmas example_eval =
  ShardListDataset_getitem_def read_sample_def get_shard_def example_dataset_def
  example_after_def LRUShards_get_shard_def LRUShards_init_def reset_stats_def
  lru_contains_def lru_setitem_def lru_getitem_def lookup_shard_def example_env_def
  IndexedTarSamples_init_def names_def group_by_key_def splitname_eval
  IndexedTarSamples_getitem_def py_getitem_def get_file_def check_cache_misses_def
  get_stats_def Let_def mk_shard_def locate_def searchsorted_right_def binsearch_right.simps

lemma example_first:
  "snd (ShardListDataset_getitem example_env example_dataset 0) =
     example_after ''A'' ''a.jpg'' ''x'' 1 1"
  by (simp add: example_eval)

lemma example_access_A:
  "n < 100 \<Longrightarrow>
   snd (ShardListDataset_getitem example_env (example_after ''B'' ''b.jpg'' ''y'' n m) 0) =
     example_after ''A'' ''a.jpg'' ''x'' (n + 1) (m + 1)"
  by (simp add: example_eval)

lemma example_access_B:
  "n < 100 \<Longrightarrow>
   snd (ShardListDataset_getitem example_env (example_after ''A'' ''a.jpg'' ''x'' n m) 1) =
     example_after ''B'' ''b.jpg'' ''y'' (n + 1) (m + 1)"
  by (simp add: example_eval)

lemma example_rounds:
  "n + 2 * int k \<le> 100 \<Longrightarrow>
   access_all example_env (example_after ''B'' ''b.jpg'' ''y'' n n) (concat (replicate k [0, 1])) =
     example_after ''B'' ''b.jpg'' ''y'' (n + 2 * int k) (n + 2 * int k)"
proof (induction k arbitrary: n)
  case 0
  then show ?case by simp
next
  case (Suc k)
  have a: "n < 100" and b: "n + 1 < 100" and c: "n + 2 + 2 * int k \<le> 100"
    using Suc.prems by simp_all
  have "access_all example_env (example_after ''B'' ''b.jpg'' ''y'' n n)
          (concat (replicate (Suc k) [0, 1])) =
        access_all example_env (example_after ''B'' ''b.jpg'' ''y'' (n + 2) (n + 2))
          (concat (replicate k [0, 1]))"
    by (simp add: example_access_A [OF a] example_access_B [OF b] add.assoc)
  also have "\<dots> = example_after ''B'' ''b.jpg'' ''y'' (n + 2 + 2 * int k) (n + 2 + 2 * int k)"
    by (rule Suc.IH [OF c])
  finally show ?case by (simp add: algebra_simps)
qed

lemma example_hundred:
  "access_all example_env example_dataset ([0, 1] @ concat (replicate 49 [0, 1])) =
     example_after ''B'' ''b.jpg'' ''y'' 100 100"
proof -
  have "access_all example_env example_dataset [0, 1] = example_after ''B'' ''b.jpg'' ''y'' 2 2"
    using example_access_B [of 1 1] by (simp add: example_first)
  then show ?thesis
    using example_rounds [of 2 49] by (simp add: access_all_append)
qed

lemma example_failing_access:
  "ShardListDataset_getitem example_env (example_after ''B'' ''b.jpg'' ''y'' 100 100) (- 2) =
     (Inl IndexError, example_after ''A'' ''a.jpg'' ''x'' 101 101)"
  by (simp add: example_eval)

lemma example_warning:
  "warned (snd (ShardListDataset_getitem example_env
      (example_after ''A'' ''a.jpg'' ''x'' 101 101) 0)) = [(102, 101)]"
  by (simp add: example_eval)

text \<open>
  C7 as stated fails on an access that raises after the cache has counted it. On the example
  dataset with a cache of capacity one, a hundred accesses alternating between the two
  shards all miss; the next access, at \<open>-2\<close>, misses too and raises \<open>IndexError\<close> in the grouper.
  After it the access count is 101 and every access has missed, yet no warning has been
  emitted; the warning comes with the access after.
\<close>

theorem cache_health_warning_late:
  "accesses (cache (access_all example_env example_dataset
      ([0, 1] @ concat (replicate 49 [0, 1])))) = 100 \<and>
   fst (ShardListDataset_getitem example_env
      (access_all example_env example_dataset ([0, 1] @ concat (replicate 49 [0, 1]))) (- 2))
     = Inl IndexError \<and>
   accesses (cache (access_all example_env example_dataset
      ([0, 1] @ concat (replicate 49 [0, 1]) @ [- 2]))) = 101 \<and>
   misses (cache (access_all example_env example_dataset
      ([0, 1] @ concat (replicate 49 [0, 1]) @ [- 2]))) = 101 \<and>
   warned (access_all example_env example_dataset
      ([0, 1] @ concat (replicate 49 [0, 1]) @ [- 2])) = [] \<and>
   warned (access_all example_env example_dataset
      ([0, 1] @ concat (replicate 49 [0, 1]) @ [- 2, 0])) = [(102, 101)]"
proof -
  let ?h = "[0, 1] @ concat (replicate 49 [0, 1])"
  have h: "access_all example_env example_dataset ?h = example_after ''B'' ''b.jpg'' ''y'' 100 100"
    by (rule example_hundred)
  have 1: "access_all example_env example_dataset (?h @ [- 2]) =
             example_after ''A'' ''a.jpg'' ''x'' 101 101"
    unfolding access_all_append [of example_env example_dataset ?h] h
    by (simp add: example_failing_access)
  have 2: "access_all example_env example_dataset (?h @ [- 2, 0]) =
             snd (ShardListDataset_getitem example_env
                    (example_after ''A'' ''a.jpg'' ''x'' 101 101) 0)"
    unfolding access_all_append [of example_env example_dataset ?h] h
    by (simp add: example_failing_access)
  have 3: "accesses (cache (example_after ''B'' ''b.jpg'' ''y'' 100 100)) = 100"
    and 4: "accesses (cache (example_after ''A'' ''a.jpg'' ''x'' 101 101)) = 101"
    and 5: "misses (cache (example_after ''A'' ''a.jpg'' ''x'' 101 101)) = 101"
    and 6: "warned (example_after ''A'' ''a.jpg'' ''x'' 101 101) = []"
    by (simp_all add: example_after_def example_dataset_def)
  show ?thesis
    using 1 2 3 4 5 6 example_warning example_failing_access
    unfolding h append_assoc [symmetric] by simp
qed


section \<open>The escaped-global-directory localizer\<close>

lemma hexdigit_inj:
  assumes "m < 16" and "n < 16" and "hexdigit m = hexdigit n"
  shows "m = n"
proof -
  have "distinct ''0123456789ABCDEF''" by simp
  from nth_eq_iff_index_eq [OF this, of m n] assms show ?thesis
    by (simp add: hexdigit_def)
qed

lemma hexdigit_in:
  assumes "n < 16"
  shows "hexdigit n \<in> set ''0123456789ABCDEF''"
proof -
  have "n < length ''0123456789ABCDEF''" using assms by simp
  from nth_mem [OF this] show ?thesis by (simp only: hexdigit_def)
qed

lemma hexdigit_not_slash: "n < 16 \<Longrightarrow> hexdigit n \<noteq> CHR ''/''"
  using hexdigit_in [of n] by auto

lemma char_nibbles:
  "(of_char c :: nat) div 16 < 16" "(of_char c :: nat) mod 16 < 16"
proof -
  have "(of_char c :: nat) < 16 * 16" using nat_of_char_less_256 [of c] by simp
  then show "(of_char c :: nat) div 16 < 16" by (simp only: less_mult_imp_div_less)
  show "(of_char c :: nat) mod 16 < 16" by simp
qed

lemma char_from_nibbles:
  assumes "(of_char a :: nat) div 16 = of_char b div 16"
    and "(of_char a :: nat) mod 16 = of_char b mod 16"
  shows "a = b"
proof -
  have "(of_char a :: nat) = of_char b"
    using assms by (metis div_mult_mod_eq)
  then show ?thesis by simp
qed

lemma percent_not_safe:
  "CHR ''%'' \<notin> set always_safe" "CHR ''%'' \<notin> set ''+-''"
  "CHR ''/'' \<notin> set always_safe" "CHR ''/'' \<notin> set ''+-''"
  by (simp_all add: always_safe_def)

text \<open>The code of one byte determines the byte and where the code ends.\<close>

lemma quote_byte_prefix_free:
  assumes "quote_byte ''+-'' a @ xs = quote_byte ''+-'' b @ ys"
  shows "a = b \<and> xs = ys"
proof -
  let ?safe = "\<lambda>c. c \<in> set always_safe \<or> c \<in> set ''+-''"
  have ns: "\<not> ?safe (CHR ''%'')" using percent_not_safe by simp
  consider "?safe a" "?safe b" | "?safe a" "\<not> ?safe b" | "\<not> ?safe a" "?safe b"
    | "\<not> ?safe a" "\<not> ?safe b" by blast
  then show ?thesis
  proof cases
    case 1
    with assms show ?thesis by (simp add: quote_byte_def)
  next
    case 2
    with assms have "a = CHR ''%''" by (simp add: quote_byte_def)
    with 2(1) ns show ?thesis by simp
  next
    case 3
    with assms have "b = CHR ''%''" by (simp add: quote_byte_def)
    with 3(2) ns show ?thesis by simp
  next
    case 4
    with assms have h: "hexdigit (of_char a div 16) = hexdigit (of_char b div 16)"
      and l: "hexdigit (of_char a mod 16) = hexdigit (of_char b mod 16)"
      and r: "xs = ys"
      by (simp_all add: quote_byte_def)
    from hexdigit_inj [OF char_nibbles(1) char_nibbles(1) h]
      hexdigit_inj [OF char_nibbles(2) char_nibbles(2) l]
    have "a = b" by (rule char_from_nibbles)
    with r show ?thesis by simp
  qed
qed

lemma quote_byte_nonempty: "quote_byte safe c \<noteq> []"
  by (simp add: quote_byte_def)

lemma quote_inj: "quote ''+-'' s = quote ''+-'' t \<Longrightarrow> s = t"
proof (induction s arbitrary: t)
  case Nil
  then show ?case
    by (cases t) (simp_all add: quote_def quote_byte_nonempty)
next
  case (Cons a s)
  show ?case
  proof (cases t)
    case Nil
    with Cons.prems show ?thesis by (simp add: quote_def quote_byte_nonempty)
  next
    case (Cons b t')
    with Cons.prems
    have "quote_byte ''+-'' a @ quote ''+-'' s = quote_byte ''+-'' b @ quote ''+-'' t'"
      by (simp add: quote_def)
    from quote_byte_prefix_free [OF this] have "a = b" and "quote ''+-'' s = quote ''+-'' t'"
      by simp_all
    with Cons.IH [of t'] Cons show ?thesis by simp
  qed
qed

lemma quote_byte_no_slash: "CHR ''/'' \<notin> set (quote_byte ''+-'' c)"
proof (cases "c \<in> set always_safe \<or> c \<in> set ''+-''")
  case True
  then have "c \<noteq> CHR ''/''" using percent_not_safe(3,4) by auto
  with True show ?thesis by (simp add: quote_byte_def)
next
  case False
  then show ?thesis
    using hexdigit_not_slash [OF char_nibbles(1), of c]
      hexdigit_not_slash [OF char_nibbles(2), of c]
    by (simp add: quote_byte_def)
qed

lemma quote_no_slash: "CHR ''/'' \<notin> set (quote ''+-'' s)"
  by (induction s) (simp_all add: quote_def quote_byte_no_slash)

lemma os_path_join_name:
  assumes "CHR ''/'' \<notin> set b"
  shows "os_path_join a b =
           (if a = [] \<or> last a = CHR ''/'' then a else a @ ''/'') @ b"
proof -
  have "\<not> (b \<noteq> [] \<and> hd b = CHR ''/'')"
    using assms by (cases b) auto
  then show ?thesis by (auto simp: os_path_join_def)
qed

text \<open>
  C9. The escaped-global-directory localizer is injective: distinct shard identifiers get
  distinct local paths. The escaped name contains no path separator, and the local path is
  the base directory, a separator where the directory does not end in one, and the escaped
  name.
\<close>

theorem default_localname_injective:
  "(s \<noteq> t \<longrightarrow> default_localname dldir s \<noteq> default_localname dldir t) \<and>
   CHR ''/'' \<notin> set (quote ''+-'' s) \<and>
   default_localname dldir s =
     (if dldir = [] \<or> last dldir = CHR ''/'' then dldir else dldir @ ''/'') @ quote ''+-'' s"
proof -
  have p: "default_localname dldir u =
     (if dldir = [] \<or> last dldir = CHR ''/'' then dldir else dldir @ ''/'') @ quote ''+-'' u"
    for u
    by (simp add: default_localname_def os_path_join_name [OF quote_no_slash])
  have "default_localname dldir s = default_localname dldir t \<Longrightarrow> s = t"
  proof -
    assume "default_localname dldir s = default_localname dldir t"
    then have "quote ''+-'' s = quote ''+-'' t" by (simp add: p)
    then show "s = t" by (rule quote_inj)
  qed
  with p [of s] quote_no_slash [of s] show ?thesis by blast
qed

theorem default_localname_injective_witness:
  "''a/b'' \<noteq> ''a%2Fb'' \<and>
   default_localname ''/tmp/_wids_cache'' ''a/b'' \<noteq>
     default_localname ''/tmp/_wids_cache'' ''a%2Fb'' \<and>
   default_localname ''/tmp/_wids_cache'' ''a/b'' = ''/tmp/_wids_cache/a%2Fb'' \<and>
   default_localname ''/tmp/_wids_cache'' ''a%2Fb'' = ''/tmp/_wids_cache/a%252Fb''"
proof -
  have d: "''a/b'' \<noteq> ''a%2Fb''" by simp
  from default_localname_injective [of "''a/b''" "''a%2Fb''" "''/tmp/_wids_cache''"] d
  have 1: "default_localname ''/tmp/_wids_cache'' ''a/b'' \<noteq>
     default_localname ''/tmp/_wids_cache'' ''a%2Fb''"
    by blast
  have 2: "default_localname ''/tmp/_wids_cache'' ''a/b'' = ''/tmp/_wids_cache/a%2Fb''"
    and 3: "default_localname ''/tmp/_wids_cache'' ''a%2Fb'' = ''/tmp/_wids_cache/a%252Fb''"
    by (simp_all add: default_localname_def os_path_join_def quote_def quote_byte_def
        always_safe_def hexdigit_def)
  from d 1 2 3 show ?thesis by blast
qed


section \<open>The sampler\<close>

text \<open>A traversal that nothing interrupts, request by request.\<close>

lemma drain_same:
  assumes "sampler_next mk randbelow s fr = sampler_next mk randbelow t fr'"
  shows "drain mk randbelow s fr = drain mk randbelow t fr'"
  using assms by (simp add: drain.simps [of mk randbelow s fr] drain.simps [of mk randbelow t fr'])

lemma drain_end:
  "drain mk randbelow s (Running [] []) = ([], s\<lparr>epoch := epoch s + 1\<rparr>)"
  by (simp add: drain.simps [of mk randbelow s "Running [] []"])

lemma drain_pending:
  "drain mk randbelow s (Running perm (pending @ rest)) =
     (pending @ fst (drain mk randbelow s (Running perm rest)),
      snd (drain mk randbelow s (Running perm rest)))"
proof (induction pending)
  case Nil
  show ?case by simp
next
  case (Cons i pending)
  show ?case
    using Cons.IH
    by (simp add: drain.simps [of mk randbelow s "Running perm (i # pending @ rest)"]
        split: prod.splits)
qed

lemma drain_shard:
  assumes "rng s = Some g" and "ranges s ! shard = (start, end)"
    and "shuffle randbelow [start..end - 1] g = (indexes, g')"
  shows "drain mk randbelow s (Running (shard # rest) []) =
           drain mk randbelow (s\<lparr>rng := Some g'\<rparr>) (Running rest indexes)"
proof (cases indexes)
  case Nil
  have "sampler_next mk randbelow s (Running (shard # rest) []) =
          sampler_next mk randbelow (s\<lparr>rng := Some g'\<rparr>) (Running rest [])"
    using assms Nil by simp
  from drain_same [OF this] Nil show ?thesis by simp
next
  case (Cons i later)
  have "sampler_next mk randbelow s (Running (shard # rest) []) =
          (Yield i, s\<lparr>rng := Some g'\<rparr>, Running rest later)"
    using assms Cons by simp
  then have "drain mk randbelow s (Running (shard # rest) []) =
          (i # fst (drain mk randbelow (s\<lparr>rng := Some g'\<rparr>) (Running rest later)),
           snd (drain mk randbelow (s\<lparr>rng := Some g'\<rparr>) (Running rest later)))"
    by (simp add: drain.simps [of mk randbelow s "Running (shard # rest) []"] split: prod.splits)
  also have "\<dots> = drain mk randbelow (s\<lparr>rng := Some g'\<rparr>) (Running rest ([i] @ later))"
    unfolding drain_pending [of mk randbelow "s\<lparr>rng := Some g'\<rparr>" rest "[i]" later]
    by (simp add: drain_pending [of mk randbelow "s\<lparr>rng := Some g'\<rparr>" rest later "[]", simplified])
  finally show ?thesis using Cons by simp
qed

lemma drain_start:
  "drain mk randbelow s NotStarted =
     drain mk randbelow
       (s\<lparr>rng := Some (snd (if epoch s > 0 \<or> shufflefirst s
             then shuffle randbelow [0..<length (ranges s)] (mk (seed s + 1289738273 * epoch s))
             else ([0..<length (ranges s)], mk (seed s + 1289738273 * epoch s))))\<rparr>)
       (Running (fst (if epoch s > 0 \<or> shufflefirst s
             then shuffle randbelow [0..<length (ranges s)] (mk (seed s + 1289738273 * epoch s))
             else ([0..<length (ranges s)], mk (seed s + 1289738273 * epoch s)))) [])"
  by (rule drain_same) (simp add: Let_def split: prod.splits)

lemma drain_yield_shards:
  assumes "rng s = Some g"
  shows "drain mk randbelow s (Running perm []) =
           (fst (yield_shards randbelow (ranges s) perm g),
            s\<lparr>rng := Some (snd (yield_shards randbelow (ranges s) perm g)),
              epoch := epoch s + 1\<rparr>)"
  using assms
proof (induction perm arbitrary: s g)
  case Nil
  then have "s\<lparr>rng := Some g\<rparr> = s" by simp
  then show ?case by (simp add: drain_end)
next
  case (Cons shard rest)
  obtain start "end" where se: "ranges s ! shard = (start, end)"
    by (cases "ranges s ! shard")
  obtain indexes g' where sh: "shuffle randbelow [start..end - 1] g = (indexes, g')"
    by (cases "shuffle randbelow [start..end - 1] g")
  let ?s = "s\<lparr>rng := Some g'\<rparr>"
  have "drain mk randbelow s (Running (shard # rest) []) =
          drain mk randbelow ?s (Running rest indexes)"
    by (rule drain_shard [OF Cons.prems se sh])
  also have "\<dots> = (indexes @ fst (drain mk randbelow ?s (Running rest [])),
                     snd (drain mk randbelow ?s (Running rest [])))"
    using drain_pending [of mk randbelow ?s rest indexes "[]"] by simp
  finally show ?case
    using Cons.IH [of ?s g'] se sh by (simp split: prod.splits)
qed

lemma iter_drain:
  "ShardListSampler_iter mk randbelow s =
     (let g0 = mk (seed s + 1289738273 * epoch s);
          shardperm = [0..<length (ranges s)];
          (shardperm', g1) =
             (if epoch s > 0 \<or> shufflefirst s then shuffle randbelow shardperm g0
              else (shardperm, g0));
          (out, g2) = yield_shards randbelow (ranges s) shardperm' g1
      in (out, s\<lparr>rng := Some g2, epoch := epoch s + 1\<rparr>))"
  unfolding ShardListSampler_iter_def drain_start
  by (simp add: drain_yield_shards Let_def split: prod.splits)


lemma shuffle_loop_mset:
  assumes "\<forall>g n. 0 < n \<longrightarrow> fst (randbelow g n) < n"
    and "\<forall>i\<in>set is. i < length x"
  shows "mset (fst (shuffle_loop randbelow is x g)) = mset x"
  using assms(2)
proof (induction "is" arbitrary: x g)
  case Nil
  then show ?case by simp
next
  case (Cons i "is")
  obtain j g' where r: "randbelow g (i + 1) = (j, g')"
    by (cases "randbelow g (i + 1)")
  have i: "i < length x" using Cons.prems by simp
  have "fst (randbelow g (i + 1)) < i + 1" using assms(1) by simp
  with r i have j: "j < length x" by simp
  let ?x = "x[i := x ! j, j := x ! i]"
  have sw: "mset ?x = mset x" using mset_swap [OF j i] .
  have "\<forall>k\<in>set is. k < length ?x" using Cons.prems by simp
  from Cons.IH [OF this, of g'] sw r show ?case by simp
qed

lemma shuffle_mset:
  assumes "\<forall>g n. 0 < n \<longrightarrow> fst (randbelow g n) < n"
  shows "mset (fst (shuffle randbelow x g)) = mset x"
proof -
  have "\<forall>i\<in>set (rev [1..<length x]). i < length x" by simp
  from shuffle_loop_mset [OF assms this] show ?thesis by (simp add: shuffle_def)
qed

lemma yield_shards_blocks:
  assumes "\<forall>g n. 0 < n \<longrightarrow> fst (randbelow g n) < n"
  shows "\<exists>blocks. length blocks = length perm \<and>
           fst (yield_shards randbelow rs perm g) = concat blocks \<and>
           (\<forall>k<length perm. mset (blocks ! k) = mset (shard_range rs (perm ! k)))"
proof (induction perm arbitrary: g)
  case Nil
  show ?case by simp
next
  case (Cons s perm)
  obtain start "end" where se: "rs ! s = (start, end)" by (cases "rs ! s")
  obtain indexes g' where sh: "shuffle randbelow [start..end - 1] g = (indexes, g')"
    by (cases "shuffle randbelow [start..end - 1] g")
  from Cons.IH [of g'] obtain blocks where b: "length blocks = length perm"
    "fst (yield_shards randbelow rs perm g') = concat blocks"
    "\<forall>k<length perm. mset (blocks ! k) = mset (shard_range rs (perm ! k))"
    by blast
  have m: "mset indexes = mset (shard_range rs s)"
    using shuffle_mset [OF assms, of "[start..end - 1]" g] sh se
    by (simp add: shard_range_def)
  have 1: "length (indexes # blocks) = length (s # perm)" using b(1) by simp
  obtain out g'' where ys: "yield_shards randbelow rs perm g' = (out, g'')"
    by (cases "yield_shards randbelow rs perm g'")
  have 2: "fst (yield_shards randbelow rs (s # perm) g) = concat (indexes # blocks)"
    using se sh ys b(2) by simp
  have 3: "\<forall>k<length (s # perm).
             mset ((indexes # blocks) ! k) = mset (shard_range rs ((s # perm) ! k))"
  proof (intro allI impI)
    fix k assume "k < length (s # perm)"
    then show "mset ((indexes # blocks) ! k) = mset (shard_range rs ((s # perm) ! k))"
      using m b(3) by (cases k) simp_all
  qed
  from 1 2 3 show ?case by blast
qed

lemma blocks_mset:
  assumes "length blocks = length perm"
    and "\<forall>k<length perm. mset (blocks ! k) = mset (f (perm ! k))"
  shows "mset (concat blocks) = mset (concat (map f perm))"
proof -
  have "map mset blocks = map (mset \<circ> f) perm"
    using assms by (intro nth_equalityI) simp_all
  then show ?thesis by (simp add: mset_concat)
qed

lemma concat_map_mset_cong:
  assumes "mset xs = mset ys"
  shows "mset (concat (map f xs)) = mset (concat (map f ys))"
proof -
  have "mset (concat (map f xs)) = sum_mset (image_mset (mset \<circ> f) (mset xs))"
    by (simp add: mset_concat flip: sum_mset_sum_list)
  also have "\<dots> = sum_mset (image_mset (mset \<circ> f) (mset ys))"
    using assms by simp
  also have "\<dots> = mset (concat (map f ys))"
    by (simp add: mset_concat flip: sum_mset_sum_list)
  finally show ?thesis .
qed

lemma ranges_from_length [simp]: "length (ranges_from start ls) = length ls"
  by (induction ls arbitrary: start) simp_all

lemma ranges_from_concat:
  assumes "\<forall>l\<in>set ls. 0 \<le> l"
  shows "concat (map (\<lambda>(a, b). [a..b - 1]) (ranges_from start ls)) =
           [start..start + sum_list ls - 1]"
  using assms
proof (induction ls arbitrary: start)
  case Nil
  then show ?case by simp
next
  case (Cons l ls)
  have l: "0 \<le> l" and s: "0 \<le> sum_list ls"
    using Cons.prems by (simp_all add: sum_list_nonneg)
  have "concat (map (\<lambda>(a, b). [a..b - 1]) (ranges_from start (l # ls))) =
          [start..start + l - 1] @ [start + l..start + l + sum_list ls - 1]"
    using Cons.IH [of "start + l"] Cons.prems by simp
  also have "\<dots> = [start..start + l + sum_list ls - 1]"
    using upto_split1 [of start "start + l" "start + l + sum_list ls - 1"] l s
    by (cases "sum_list ls = 0") (simp_all add: upto_rec2)
  finally show ?case by (simp add: add.assoc)
qed

lemma shard_ranges_all:
  "concat (map (shard_range rs) [0..<length rs]) = concat (map (\<lambda>(a, b). [a..b - 1]) rs)"
proof -
  have "shard_range rs = (\<lambda>(a, b). [a..b - 1]) \<circ> (!) rs"
    by (auto simp: shard_range_def fun_eq_iff split: prod.splits)
  then have "map (shard_range rs) [0..<length rs] =
               map (\<lambda>(a, b). [a..b - 1]) (map ((!) rs) [0..<length rs])"
    by simp
  then show ?thesis by (simp only: map_nth)
qed


lemma iter_output:
  "fst (ShardListSampler_iter mk randbelow s) =
     fst (yield_shards randbelow (ranges s)
            (fst (if epoch s > 0 \<or> shufflefirst s
                  then shuffle randbelow [0..<length (ranges s)]
                         (mk (seed s + 1289738273 * epoch s))
                  else ([0..<length (ranges s)], mk (seed s + 1289738273 * epoch s))))
            (snd (if epoch s > 0 \<or> shufflefirst s
                  then shuffle randbelow [0..<length (ranges s)]
                         (mk (seed s + 1289738273 * epoch s))
                  else ([0..<length (ranges s)], mk (seed s + 1289738273 * epoch s)))))"
  by (simp add: iter_drain Let_def split: prod.splits)

lemma iter_state:
  "epoch (snd (ShardListSampler_iter mk randbelow s)) = epoch s + 1"
  "ranges (snd (ShardListSampler_iter mk randbelow s)) = ranges s"
  "seed (snd (ShardListSampler_iter mk randbelow s)) = seed s"
  "shufflefirst (snd (ShardListSampler_iter mk randbelow s)) = shufflefirst s"
  by (simp_all add: iter_drain Let_def split: prod.splits)

lemmas iter_epoch = iter_state(1)

lemma iter_blocks:
  assumes c: "\<forall>g n. 0 < n \<longrightarrow> fst (randbelow g n) < n"
  shows "\<exists>perm blocks.
           mset perm = mset [0..<length (ranges s)] \<and> length blocks = length perm \<and>
           fst (ShardListSampler_iter mk randbelow s) = concat blocks \<and>
           (\<forall>k<length perm. mset (blocks ! k) = mset (shard_range (ranges s) (perm ! k)))"
proof -
  let ?g = "mk (seed s + 1289738273 * epoch s)"
  let ?p = "if epoch s > 0 \<or> shufflefirst s
            then shuffle randbelow [0..<length (ranges s)] ?g
            else ([0..<length (ranges s)], ?g)"
  have p: "mset (fst ?p) = mset [0..<length (ranges s)]"
    using shuffle_mset [OF c, of "[0..<length (ranges s)]" ?g] by simp
  from yield_shards_blocks [OF c, of "fst ?p" "ranges s" "snd ?p"]
  obtain blocks where "length blocks = length (fst ?p)"
    "fst (yield_shards randbelow (ranges s) (fst ?p) (snd ?p)) = concat blocks"
    "\<forall>k<length (fst ?p). mset (blocks ! k) = mset (shard_range (ranges s) (fst ?p ! k))"
    by blast
  with p show ?thesis
    unfolding iter_output [of mk randbelow s] by blast
qed

lemma iter_mset:
  assumes c: "\<forall>g n. 0 < n \<longrightarrow> fst (randbelow g n) < n"
    and n: "\<forall>l\<in>set lens. 0 \<le> l" and r: "ranges s = ranges_from 0 lens"
  shows "mset (fst (ShardListSampler_iter mk randbelow s)) = mset [0..sum_list lens - 1]"
proof -
  from iter_blocks [OF c, of s mk] obtain perm blocks where
    p: "mset perm = mset [0..<length (ranges s)]" and l: "length blocks = length perm"
    and o: "fst (ShardListSampler_iter mk randbelow s) = concat blocks"
    and b: "\<forall>k<length perm. mset (blocks ! k) = mset (shard_range (ranges s) (perm ! k))"
    by blast
  have "mset (concat blocks) = mset (concat (map (shard_range (ranges s)) perm))"
    by (rule blocks_mset [OF l b])
  also have "\<dots> = mset (concat (map (shard_range (ranges s)) [0..<length (ranges s)]))"
    by (rule concat_map_mset_cong [OF p])
  also have "concat (map (shard_range (ranges s)) [0..<length (ranges s)]) =
               concat (map (\<lambda>(a, b). [a..b - 1]) (ranges s))"
    by (rule shard_ranges_all)
  also have "\<dots> = [0..sum_list lens - 1]"
    unfolding r using ranges_from_concat [OF n, of 0] by simp
  finally show ?thesis using o by simp
qed

lemma init_ranges:
  "ranges (ShardListSampler_init ds (Some lens) sd sf) = ranges_from 0 lens"
  "ranges (ShardListSampler_init ds None sd sf) = ranges_from 0 (lengths ds)"
  by (simp_all add: ShardListSampler_init_def)

text \<open>
  C5. For non-negative per-shard lengths, any seed and any epoch, one traversal of the
  sampler yields every index of \<open>[0, total)\<close> exactly once: its output is a permutation of
  that range. The output is a concatenation of blocks, one for each shard, the shards taken
  in a permutation of their order, and each block is a permutation of the index range of
  its shard, so that the indices of one shard are contiguous. The traversal increments the
  epoch. The generator is assumed to draw below its bound, as \<open>randbelow\<close> does.
\<close>

theorem sampler_traversal_permutation:
  "(\<forall>g n. 0 < n \<longrightarrow> fst (randbelow g n) < n) \<and> (\<forall>l\<in>set lens. 0 \<le> l) \<and>
   ranges s = ranges (ShardListSampler_init ds (Some lens) sd sf) \<longrightarrow>
   ranges s = ranges_from 0 lens \<and>
   mset (fst (ShardListSampler_iter mk randbelow s)) = mset [0..sum_list lens - 1] \<and>
   distinct (fst (ShardListSampler_iter mk randbelow s)) \<and>
   set (fst (ShardListSampler_iter mk randbelow s)) = {0..<sum_list lens} \<and>
   (\<exists>perm blocks.
      mset perm = mset [0..<length lens] \<and> length blocks = length perm \<and>
      fst (ShardListSampler_iter mk randbelow s) = concat blocks \<and>
      (\<forall>k<length perm.
         mset (blocks ! k) = mset [fst (ranges s ! (perm ! k))..snd (ranges s ! (perm ! k)) - 1])) \<and>
   epoch (snd (ShardListSampler_iter mk randbelow s)) = epoch s + 1"
proof (intro impI)
  assume a: "(\<forall>g n. 0 < n \<longrightarrow> fst (randbelow g n) < n) \<and> (\<forall>l\<in>set lens. 0 \<le> l) \<and>
             ranges s = ranges (ShardListSampler_init ds (Some lens) sd sf)"
  then have c: "\<forall>g n. 0 < n \<longrightarrow> fst (randbelow g n) < n" and n: "\<forall>l\<in>set lens. 0 \<le> l"
    and r: "ranges s = ranges_from 0 lens"
    by (simp_all add: init_ranges)
  let ?out = "fst (ShardListSampler_iter mk randbelow s)"
  have m: "mset ?out = mset [0..sum_list lens - 1]"
    by (rule iter_mset [OF c n r])
  have d: "distinct ?out"
    using mset_eq_imp_distinct_iff [OF m] by simp
  have "set ?out = set [0..sum_list lens - 1]"
    by (rule mset_eq_setD [OF m])
  then have st: "set ?out = {0..<sum_list lens}" by auto
  have b: "\<exists>perm blocks.
      mset perm = mset [0..<length lens] \<and> length blocks = length perm \<and>
      ?out = concat blocks \<and>
      (\<forall>k<length perm.
         mset (blocks ! k) = mset [fst (ranges s ! (perm ! k))..snd (ranges s ! (perm ! k)) - 1])"
    using iter_blocks [OF c, of s mk] r by (simp add: shard_range_def)
  from r m d st b iter_epoch [of mk randbelow s] show
   "ranges s = ranges_from 0 lens \<and>
   mset ?out = mset [0..sum_list lens - 1] \<and> distinct ?out \<and> set ?out = {0..<sum_list lens} \<and>
   (\<exists>perm blocks.
      mset perm = mset [0..<length lens] \<and> length blocks = length perm \<and>
      ?out = concat blocks \<and>
      (\<forall>k<length perm.
         mset (blocks ! k) = mset [fst (ranges s ! (perm ! k))..snd (ranges s ! (perm ! k)) - 1])) \<and>
   epoch (snd (ShardListSampler_iter mk randbelow s)) = epoch s + 1"
    by blast
qed

lemma example_randbelow_contract:
  "\<forall>g n. 0 < n \<longrightarrow> fst (example_randbelow g n) < n"
  by (simp add: example_randbelow_def)

theorem sampler_traversal_permutation_witness:
  "mset (fst (ShardListSampler_iter example_mk example_randbelow
       (ShardListSampler_init example_dataset (Some [3, 0, 2]) 5 True))) = mset [0..4] \<and>
   distinct (fst (ShardListSampler_iter example_mk example_randbelow
       (ShardListSampler_init example_dataset (Some [3, 0, 2]) 5 True)))"
proof -
  let ?s = "ShardListSampler_init example_dataset (Some [3, 0, 2]) 5 True :: nat ShardListSampler"
  have n: "\<forall>l\<in>set [3, 0, 2 :: int]. 0 \<le> l" by simp
  from sampler_traversal_permutation [where randbelow = example_randbelow
      and lens = "[3, 0, 2]" and s = ?s and ds = example_dataset and sd = 5 and sf = True
      and mk = example_mk]
    example_randbelow_contract n
  have "mset (fst (ShardListSampler_iter example_mk example_randbelow ?s)) =
          mset [0..sum_list [3, 0, 2] - 1] \<and>
        distinct (fst (ShardListSampler_iter example_mk example_randbelow ?s))"
    by blast
  then show ?thesis by simp
qed


text \<open>
  C6 (as amended). A traversal that is consumed from its creation to its end, with no other
  traversal of the same sampler advancing in between, yields a sequence that is a function
  of the base seed, the epoch at its start, the ranges built from the lengths and
  \<open>shufflefirst\<close> alone: two samplers that agree on these yield the same sequence, whatever
  generator earlier traversals left in \<open>self.rng\<close>. So the traversal that follows another is
  the traversal of the same sampler with the epoch advanced, and two samplers built alike
  yield the same sequence.
\<close>

theorem sampler_deterministic:
  "(ranges s = ranges t \<and> seed s = seed t \<and> epoch s = epoch t \<and>
    shufflefirst s = shufflefirst t \<longrightarrow>
      fst (drain mk randbelow s NotStarted) = fst (drain mk randbelow t NotStarted) \<and>
      fst (ShardListSampler_iter mk randbelow s) = fst (ShardListSampler_iter mk randbelow t)) \<and>
   fst (ShardListSampler_iter mk randbelow (snd (ShardListSampler_iter mk randbelow s))) =
     fst (ShardListSampler_iter mk randbelow (s\<lparr>epoch := epoch s + 1\<rparr>)) \<and>
   fst (ShardListSampler_iter mk randbelow (ShardListSampler_init ds (Some lens) sd sf)) =
     fst (ShardListSampler_iter mk randbelow (ShardListSampler_init ds' (Some lens) sd sf))"
proof (intro conjI impI)
  assume a: "ranges s = ranges t \<and> seed s = seed t \<and> epoch s = epoch t \<and>
          shufflefirst s = shufflefirst t"
  then show e: "fst (ShardListSampler_iter mk randbelow s) = fst (ShardListSampler_iter mk randbelow t)"
    by (simp add: iter_output)
  then show "fst (drain mk randbelow s NotStarted) = fst (drain mk randbelow t NotStarted)"
    by (simp add: ShardListSampler_iter_def)
next
  show "fst (ShardListSampler_iter mk randbelow (snd (ShardListSampler_iter mk randbelow s))) =
     fst (ShardListSampler_iter mk randbelow (s\<lparr>epoch := epoch s + 1\<rparr>))"
    by (simp add: iter_output iter_state)
next
  show "fst (ShardListSampler_iter mk randbelow (ShardListSampler_init ds (Some lens) sd sf)) =
     fst (ShardListSampler_iter mk randbelow (ShardListSampler_init ds' (Some lens) sd sf))"
    by (simp add: iter_output ShardListSampler_init_def)
qed

theorem sampler_deterministic_witness:
  "fst (ShardListSampler_iter example_mk example_randbelow
     \<lparr>ranges = ranges_from 0 [3, 0, 2], seed = 5, shufflefirst = False, epoch = 1,
      rng = None\<rparr>) =
   fst (ShardListSampler_iter example_mk example_randbelow
     \<lparr>ranges = ranges_from 0 [3, 0, 2], seed = 5, shufflefirst = False, epoch = 1,
      rng = Some 77\<rparr>)"
  using sampler_deterministic [where mk = example_mk and randbelow = example_randbelow
      and s = "\<lparr>ranges = ranges_from 0 [3, 0, 2], seed = 5, shufflefirst = False, epoch = 1,
                 rng = None\<rparr>"
      and t = "\<lparr>ranges = ranges_from 0 [3, 0, 2], seed = 5, shufflefirst = False, epoch = 1,
                 rng = Some 77\<rparr>"
      and ds = example_dataset and ds' = example_dataset and lens = "[]" and sd = 0 and sf = False]
  by simp

lemma upto_eval: "[0..1] = [0, 1]" "[2..3] = [2, 3::int]"
  by (simp_all add: upto_rec1)

lemma randbelow_eval:
  "example_randbelow 5 (Suc (Suc 0)) = (0, 166)"
  "example_randbelow 166 (Suc (Suc 0)) = (1, 5157)"
  "example_randbelow 5157 (Suc (Suc 0)) = (0, 159878)"
  unfolding numeral_2_eq_2 [symmetric] by (simp_all add: example_randbelow_def)

lemma shuffle_eval:
  "shuffle example_randbelow [0, 1 :: int] 5 = ([1, 0], 166)"
  "shuffle example_randbelow [2, 3 :: int] 166 = ([2, 3], 5157)"
  "shuffle example_randbelow [2, 3 :: int] 5157 = ([3, 2], 159878)"
  by (simp_all add: shuffle_def randbelow_eval upt_rec)

lemma example_alone:
  "ShardListSampler_iter example_mk example_randbelow example_sampler =
     ([1, 0, 2, 3], example_sampler\<lparr>rng := Some 5157, epoch := 1\<rparr>)"
  by (simp add: iter_drain example_sampler_def example_mk_def upt_rec upto_eval shuffle_eval)

lemma example_first_request:
  "sampler_next example_mk example_randbelow example_sampler NotStarted =
     (Yield 1, example_sampler\<lparr>rng := Some 166\<rparr>, Running [1] [0])"
  by (simp add: example_sampler_def example_mk_def upt_rec upto_eval shuffle_eval)

lemma example_second_traversal:
  "drain example_mk example_randbelow (example_sampler\<lparr>rng := Some 166\<rparr>) NotStarted =
     ([1, 0, 2, 3], example_sampler\<lparr>rng := Some 5157, epoch := 1\<rparr>)"
  using iter_drain [of example_mk example_randbelow "example_sampler\<lparr>rng := Some 166\<rparr>"]
  by (simp add: ShardListSampler_iter_def example_sampler_def example_mk_def upt_rec upto_eval
      shuffle_eval)

lemma example_first_resumed:
  "drain example_mk example_randbelow (example_sampler\<lparr>rng := Some 5157, epoch := 1\<rparr>)
     (Running [1] [0]) =
     ([0, 3, 2], example_sampler\<lparr>rng := Some 159878, epoch := 2\<rparr>)"
  using drain_pending [of example_mk example_randbelow
      "example_sampler\<lparr>rng := Some 5157, epoch := 1\<rparr>" "[1]" "[0]" "[]"]
  by (simp add: drain_yield_shards [of _ 5157] example_sampler_def upto_eval shuffle_eval)


text \<open>
  C6 as stated fails for two traversals of one sampler that interleave. Both are created on
  the sampler with seed 5 at epoch 0 over the lengths \<open>[2, 2]\<close>. The first yields one
  index; the second then starts, which replaces \<open>self.rng\<close>, and runs to its end; the first,
  resumed, shuffles its second shard with the generator the second traversal left. The
  second traversal yields \<open>1, 0, 2, 3\<close>, as a traversal alone does; the first yields
  \<open>1, 0, 3, 2\<close>.
\<close>

theorem sampler_interleaved_traversals_differ:
  "seed example_sampler = 5 \<and> epoch example_sampler = 0 \<and>
   fst (ShardListSampler_iter example_mk example_randbelow example_sampler) = [1, 0, 2, 3] \<and>
   sampler_next example_mk example_randbelow example_sampler NotStarted =
     (Yield 1, example_sampler\<lparr>rng := Some 166\<rparr>, Running [1] [0]) \<and>
   epoch (example_sampler\<lparr>rng := Some 166\<rparr>) = 0 \<and>
   drain example_mk example_randbelow (example_sampler\<lparr>rng := Some 166\<rparr>) NotStarted =
     ([1, 0, 2, 3], example_sampler\<lparr>rng := Some 5157, epoch := 1\<rparr>) \<and>
   drain example_mk example_randbelow (example_sampler\<lparr>rng := Some 5157, epoch := 1\<rparr>)
     (Running [1] [0]) =
     ([0, 3, 2], example_sampler\<lparr>rng := Some 159878, epoch := 2\<rparr>) \<and>
   1 # [0, 3, 2] \<noteq> [1, 0, 2, 3 :: int]"
  using example_alone example_first_request example_second_traversal example_first_resumed
  by (simp add: example_sampler_def)

end
